theory Spec2Isabelle
  imports Main
begin

section \<open>The IMD loader: names, links, files, tables, database, orchestrator\<close>

text \<open>
  A shallow embedding of \<^verbatim>\<open>src/ImdLoader/imd_loader.py\<close>. A Python string is the list
  of the bytes of its UTF-8 encoding. Apart from \<^verbatim>\<open>str.lower\<close>, every string operation of
  the loader looks for ASCII characters only (space, hyphen, ampersand, parentheses,
  underscore, slash, dot, and the literals it compares with), and such an operation does
  on the encoding what it does on the string: an ASCII byte of a UTF-8 text is always an
  ASCII character of its own. What the interpreter and the libraries answer
  (\<^verbatim>\<open>str.lower\<close>, the limit on the conversion of an \<^verbatim>\<open>int\<close> to a \<^verbatim>\<open>str\<close>, requests,
  BeautifulSoup, pandas, the file system, DuckDB) is a parameter of the model, collected
  in the record \<open>env\<close> below.
\<close>

subsection \<open>Python string primitives\<close>

text \<open>\<^verbatim>\<open>s.replace(old, new)\<close> where \<open>old\<close> is one character, as in every call of the source.\<close>

definition replace :: "char \<Rightarrow> string \<Rightarrow> string \<Rightarrow> string" where
  "replace old new s = concat (map (\<lambda>c. if c = old then new else [c]) s)"

text \<open>\<^verbatim>\<open>re.sub(r"_+", "_", s)\<close>: every maximal run of underscores becomes one underscore.\<close>

function sub_underscores :: "string \<Rightarrow> string" where
  "sub_underscores [] = []"
| "sub_underscores (c # cs) =
     (if c = CHR ''_'' then CHR ''_'' # sub_underscores (dropWhile (\<lambda>x. x = CHR ''_'') cs)
      else c # sub_underscores cs)"
  by pat_completeness auto
termination
  by (relation "measure length") (auto simp: less_Suc_eq_le length_dropWhile_le)

text \<open>\<^verbatim>\<open>s.strip("_")\<close>\<close>

definition strip :: "char \<Rightarrow> string \<Rightarrow> string" where
  "strip u s = rev (dropWhile (\<lambda>x. x = u) (rev (dropWhile (\<lambda>x. x = u) s)))"

text \<open>The decimal digits of a Python integer, as \<^verbatim>\<open>str\<close> and the f-strings write them.\<close>

definition digit :: "nat \<Rightarrow> char" where
  "digit d = ''0123456789'' ! d"

function str_nat :: "nat \<Rightarrow> string" where
  "str_nat n = (if n < 10 then [digit n] else str_nat (n div 10) @ [digit (n mod 10)])"
  by pat_completeness auto
termination
  by (relation "measure id") auto

declare str_nat.simps [simp del]

definition str_int :: "int \<Rightarrow> string" where
  "str_int i = (if i < 0 then CHR ''-'' # str_nat (nat (- i)) else str_nat (nat i))"

text \<open>\<^verbatim>\<open>s.startswith(p)\<close>, \<^verbatim>\<open>s.endswith(p)\<close>, \<^verbatim>\<open>s.split(c)\<close> for a one-character separator.\<close>

definition startswith :: "string \<Rightarrow> string \<Rightarrow> bool" where
  "startswith s p = (take (length p) s = p)"

definition endswith :: "string \<Rightarrow> string \<Rightarrow> bool" where
  "endswith s p = (length p \<le> length s \<and> drop (length s - length p) s = p)"

fun split :: "char \<Rightarrow> string \<Rightarrow> string list" where
  "split c [] = [[]]"
| "split c (x # xs) =
     (if x = c then [] # split c xs
      else (case split c xs of [] \<Rightarrow> [[x]] | w # ws \<Rightarrow> (x # w) # ws))"

subsection \<open>pathlib\<close>

text \<open>
  A path \<^verbatim>\<open>output_dir / filename\<close> is represented by \<open>filename\<close>: the loader only
  ever builds paths inside the one data directory, from file names that are a single,
  non-empty path segment (the last segment of a link, see \<open>attachments_loop\<close>), so
  \<^verbatim>\<open>Path.name\<close> is the file name itself. \<^verbatim>\<open>Path.suffix\<close> and \<^verbatim>\<open>Path.stem\<close> cut the
  name at its last dot, unless that dot is the first or the last character.
\<close>

text \<open>\<^verbatim>\<open>s.rfind(c)\<close>, with \<open>None\<close> for \<^verbatim>\<open>-1\<close>.\<close>

definition rfind :: "char \<Rightarrow> string \<Rightarrow> nat option" where
  "rfind c s =
     (if c \<in> set s then Some (length (dropWhile (\<lambda>x. x \<noteq> c) (rev s)) - 1) else None)"

definition path_suffix :: "string \<Rightarrow> string" where
  "path_suffix name =
     (case rfind (CHR ''.'') name of
        None \<Rightarrow> []
      | Some i \<Rightarrow> if 0 < i \<and> i < length name - 1 then drop i name else [])"

definition path_stem :: "string \<Rightarrow> string" where
  "path_stem name =
     (case rfind (CHR ''.'') name of
        None \<Rightarrow> name
      | Some i \<Rightarrow> if 0 < i \<and> i < length name - 1 then take i name else name)"

subsection \<open>Data model\<close>

text \<open>A Download Descriptor, the dict \<^verbatim>\<open>{"url": ..., "filename": ...}\<close>.\<close>

record download =
  url :: string
  filename :: string

text \<open>
  What BeautifulSoup finds in one \<^verbatim>\<open>section.gem-c-attachment\<close>: the first
  \<^verbatim>\<open>a.govuk-link\<close> if there is one (\<open>None\<close> otherwise), and its \<^verbatim>\<open>href\<close> attribute
  if it has one.
\<close>

type_synonym anchor = "string option"
type_synonym attachment = "anchor option"

text \<open>A pandas DataFrame, as far as the loader looks at it.\<close>

record dataframe =
  columns :: "string list"
  rows :: "string list list"

text \<open>
  A file of the data directory, given by what pandas makes of it: \<open>workbook\<close> is
  \<open>None\<close> when \<^verbatim>\<open>pd.ExcelFile\<close> raises, and otherwise lists the sheets in file order,
  each with the result of \<^verbatim>\<open>pd.read_excel\<close> on it (\<open>None\<close> when that raises);
  \<open>table\<close> is the result of \<^verbatim>\<open>pd.read_csv\<close> (\<open>None\<close> when it raises).
\<close>

record local_file =
  workbook :: "(string \<times> dataframe option) list option"
  table :: "dataframe option"

text \<open>
  The answer to the streamed GET of one asset. \<open>RequestFailed\<close>: \<^verbatim>\<open>requests.get\<close>,
  \<^verbatim>\<open>raise_for_status\<close> or \<^verbatim>\<open>open\<close> raised, nothing was written. \<open>Interrupted f\<close>: the
  file was opened and a later chunk raised, \<open>f\<close> is what was left on disk. \<open>Body f\<close>:
  the whole body was written.
\<close>

datatype response = RequestFailed | Interrupted local_file | Body local_file

text \<open>The tags \<^verbatim>\<open>"exists"\<close>, \<^verbatim>\<open>"downloaded"\<close>, \<^verbatim>\<open>"failed"\<close>.\<close>

datatype status = Exists | Downloaded | Failed

text \<open>
  The DuckDB file: the schemas it holds, and its tables by schema and table name. DuckDB
  matches identifiers without regard to case, so a name stands here in its case-folded
  form.
\<close>

record database =
  schemas :: "string set"
  tables :: "string \<times> string \<rightharpoonup> dataframe"

text \<open>
  The exceptions that are told apart: \<open>ExtractionError\<close> with its message, the
  \<open>OSError\<close> of the file system, the \<open>ValueError\<close> of \<^verbatim>\<open>str\<close>.
\<close>

datatype error = ExtractionError string | OSError | ValueError

text \<open>
  The collaborators.
  \<^item> \<open>str_lower s\<close> is \<^verbatim>\<open>s.lower()\<close>.
  \<^item> \<open>int_max_str_digits\<close> is \<^verbatim>\<open>sys.get_int_max_str_digits()\<close>: the number of digits
    above which the conversion of an \<^verbatim>\<open>int\<close> to a \<^verbatim>\<open>str\<close> raises \<^verbatim>\<open>ValueError\<close>
    (4300 unless configured otherwise), \<open>0\<close> for no limit.
  \<^item> \<open>http_page u\<close> is the outcome of fetching and parsing the page at \<open>u\<close> (\<open>Inl e\<close>: an
    exception with text \<open>e\<close>); \<open>http_asset u\<close> the outcome of downloading \<open>u\<close>.
  \<^item> \<open>can_mkdir\<close>: whether \<^verbatim>\<open>output_dir.mkdir\<close> succeeds.
  \<^item> \<open>stat_raises p\<close>: whether \<^verbatim>\<open>Path.exists\<close> raises on the path \<open>p\<close>, as it does when
    \<^verbatim>\<open>stat\<close> fails for another reason than a missing file (a name that is too long for
    the file system, say).
  \<^item> \<open>connects\<close>: whether \<^verbatim>\<open>duckdb.connect\<close> succeeds.
  \<^item> \<open>sql d query df\<close> is what \<^verbatim>\<open>con.execute(query)\<close> does on the database \<open>d\<close> when the
    Python variable \<^verbatim>\<open>df\<close> of the caller holds the grid \<open>df\<close>: whether it returns
    (\<open>False\<close> when it raises), and the database it leaves. The query is the text the
    loader built, with the names interpolated; what DuckDB makes of it is DuckDB's
    business.
  \<^item> \<open>db_absolute\<close> is \<^verbatim>\<open>str(db_path.absolute())\<close>.
\<close>

record env =
  str_lower :: "string \<Rightarrow> string"
  int_max_str_digits :: nat
  http_page :: "string \<Rightarrow> string + attachment list"
  http_asset :: "string \<Rightarrow> response"
  can_mkdir :: bool
  stat_raises :: "string \<Rightarrow> bool"
  connects :: bool
  sql :: "database \<Rightarrow> string \<Rightarrow> dataframe \<Rightarrow> bool \<times> database"
  db_absolute :: string

text \<open>
  What a run changes: the files of the data directory by name, the GET requests issued
  so far (oldest first), and the database.
\<close>

record state =
  dir :: "string \<rightharpoonup> local_file"
  requests :: "string list"
  db :: database

text \<open>A Tabular Unit, the tuple \<^verbatim>\<open>(schema_name, table_name, df)\<close>.\<close>

type_synonym tabular_unit = "string \<times> string \<times> dataframe"

text \<open>The status dictionaries, one constructor for each shape the source yields.\<close>

datatype event =
  Extracting string
| Error string
| FoundFiles string nat
| Downloading status string
| LoadingFiles string nat
| Processing string
| Loaded string string nat
| FileComplete string nat
| Complete nat string

datatype stage_tag = SExtracting | SError | SDownloading | SLoading | SComplete

text \<open>The \<^verbatim>\<open>"stage"\<close> and \<^verbatim>\<open>"file"\<close> entries of a status dictionary.\<close>

fun stage :: "event \<Rightarrow> stage_tag" where
  "stage (Extracting m) = SExtracting"
| "stage (Error m) = SError"
| "stage (FoundFiles m n) = SDownloading"
| "stage (Downloading s f) = SDownloading"
| "stage (LoadingFiles m n) = SLoading"
| "stage (Processing f) = SLoading"
| "stage (Loaded f t n) = SLoading"
| "stage (FileComplete f n) = SLoading"
| "stage (Complete n d) = SComplete"

fun file_of :: "event \<Rightarrow> string option" where
  "file_of (Downloading s f) = Some f"
| "file_of (Processing f) = Some f"
| "file_of (Loaded f t n) = Some f"
| "file_of (FileComplete f n) = Some f"
| "file_of _ = None"

subsection \<open>Name Sanitiser\<close>

text \<open>
  The argument of \<^verbatim>\<open>sanitise_name(name: str | int)\<close>; a \<^verbatim>\<open>bool\<close> is an \<^verbatim>\<open>int\<close> of
  Python, with a \<^verbatim>\<open>str\<close> of its own.
\<close>

datatype name = Str string | Num int | Bool bool

text \<open>
  \<^verbatim>\<open>str(name)\<close>. On an \<^verbatim>\<open>int\<close> of more than \<open>int_max_str_digits\<close> digits (the sign is
  not counted) it raises \<^verbatim>\<open>ValueError\<close>.
\<close>

fun str :: "env \<Rightarrow> name \<Rightarrow> error + string" where
  "str env (Str s) = Inr s"
| "str env (Bool b) = Inr (if b then ''True'' else ''False'')"
| "str env (Num i) =
     (if 0 < int_max_str_digits env \<and> int_max_str_digits env < length (str_nat (nat \<bar>i\<bar>))
      then Inl ValueError else Inr (str_int i))"

text \<open>Lines 80 to 88: what \<^verbatim>\<open>sanitise_name\<close> does with the string \<^verbatim>\<open>str(name)\<close>.\<close>

definition sanitise :: "env \<Rightarrow> string \<Rightarrow> string" where
  "sanitise env s =
     (let sanitised =
            replace (CHR '')'') ''''
              (replace (CHR ''('') ''''
                (replace (CHR ''&'') ''and''
                  (replace (CHR ''-'') ''_''
                    (replace (CHR '' '') ''_'' (str_lower env s)))));
          sanitised = sub_underscores sanitised
      in strip (CHR ''_'') sanitised)"

text \<open>\<^verbatim>\<open>sanitise_name\<close>: nothing catches the exception of \<^verbatim>\<open>str(name)\<close>.\<close>

definition sanitise_name :: "env \<Rightarrow> name \<Rightarrow> error + string" where
  "sanitise_name env name =
     (case str env name of
        Inl e \<Rightarrow> Inl e
      | Inr s \<Rightarrow> Inr (sanitise env s))"

subsection \<open>Link Extractor\<close>

definition BASE_URL :: string where
  "BASE_URL = ''https://assets.publishing.service.gov.uk''"

text \<open>The loop over the attachments of \<^verbatim>\<open>get_download_links\<close>.\<close>

fun attachments_loop :: "attachment list \<Rightarrow> download list" where
  "attachments_loop [] = []"
| "attachments_loop (None # attachments) = attachments_loop attachments"
| "attachments_loop (Some None # attachments) = attachments_loop attachments"
| "attachments_loop (Some (Some href) # attachments) =
     (if \<not> (endswith href ''.xlsx'' \<or> endswith href ''.csv'') then attachments_loop attachments
      else if startswith href ''/media/'' then
        (let href = BASE_URL @ href
         in \<lparr>url = href, filename = last (split (CHR ''/'') href)\<rparr> # attachments_loop attachments)
      else if \<not> startswith href ''http'' then attachments_loop attachments
      else \<lparr>url = href, filename = last (split (CHR ''/'') href)\<rparr> # attachments_loop attachments)"

definition get_download_links :: "env \<Rightarrow> string \<Rightarrow> state \<Rightarrow> (error + download list) \<times> state" where
  "get_download_links env page_url st =
     (let st = st\<lparr>requests := requests st @ [page_url]\<rparr>
      in case http_page env page_url of
           Inl e \<Rightarrow> (Inl (ExtractionError (''Failed to extract download links: '' @ e)), st)
         | Inr attachments \<Rightarrow> (Inr (attachments_loop attachments), st))"

subsection \<open>File Fetcher\<close>

text \<open>\<^verbatim>\<open>file_path.exists()\<close>: it answers, or \<^verbatim>\<open>stat\<close> fails and it raises.\<close>

definition path_exists :: "env \<Rightarrow> state \<Rightarrow> string \<Rightarrow> error + bool" where
  "path_exists env st file_path =
     (if stat_raises env file_path then Inl OSError else Inr (dir st file_path \<noteq> None))"

text \<open>
  One round of the loop of \<^verbatim>\<open>download_file_gen\<close>: the status it yields, or the
  exception of \<^verbatim>\<open>file_path.exists()\<close> at line 137, which stands outside the \<^verbatim>\<open>try\<close>.
\<close>

definition fetch :: "env \<Rightarrow> download \<Rightarrow> state \<Rightarrow> error + status \<times> state" where
  "fetch env file_info st =
     (let file_path = filename file_info
      in case path_exists env st file_path of
           Inl e \<Rightarrow> Inl e
         | Inr True \<Rightarrow> Inr (Exists, st)
         | Inr False \<Rightarrow>
             (let st = st\<lparr>requests := requests st @ [url file_info]\<rparr>
              in case http_asset env (url file_info) of
                   Body f \<Rightarrow> Inr (Downloaded, st\<lparr>dir := (dir st)(file_path \<mapsto> f)\<rparr>)
                 | Interrupted f \<Rightarrow> Inr (Failed, st\<lparr>dir := (dir st)(file_path \<mapsto> f)\<rparr>)
                 | RequestFailed \<Rightarrow> Inr (Failed, st)))"

text \<open>
  The loop, run until it ends or raises: what it has yielded by then, the state it
  leaves, and the exception if there is one.
\<close>

fun download_loop ::
  "env \<Rightarrow> download list \<Rightarrow> state \<Rightarrow> (status \<times> string) list \<times> state \<times> error option" where
  "download_loop env [] st = ([], st, None)"
| "download_loop env (file_info # files) st =
     (case fetch env file_info st of
        Inl e \<Rightarrow> ([], st, Some e)
      | Inr (status, st) \<Rightarrow>
          (let (yielded, st, raised) = download_loop env files st
           in ((status, filename file_info) # yielded, st, raised)))"

text \<open>The generator: \<^verbatim>\<open>output_dir.mkdir\<close>, whose exception nothing catches, then the loop.\<close>

definition download_file_gen ::
  "env \<Rightarrow> download list \<Rightarrow> state \<Rightarrow> (status \<times> string) list \<times> state \<times> error option" where
  "download_file_gen env files st =
     (if can_mkdir env then download_loop env files st else ([], st, Some OSError))"

subsection \<open>Table Extractor\<close>

text \<open>
  Both extractors call \<^verbatim>\<open>sanitise_name\<close> on a string, a file stem or a sheet name, where
  \<^verbatim>\<open>str(name)\<close> is the name itself and cannot raise: the call is \<open>sanitise\<close> on that
  string.
\<close>

definition ExcelFile :: "state \<Rightarrow> string \<Rightarrow> (string \<times> dataframe option) list option" where
  "ExcelFile st excel_path = (case dir st excel_path of None \<Rightarrow> None | Some f \<Rightarrow> workbook f)"

definition read_excel :: "state \<Rightarrow> string \<Rightarrow> string \<Rightarrow> dataframe option" where
  "read_excel st excel_path sheet_name =
     (case ExcelFile st excel_path of
        None \<Rightarrow> None
      | Some sheets \<Rightarrow> (case map_of sheets sheet_name of None \<Rightarrow> None | Some df \<Rightarrow> df))"

definition read_csv :: "state \<Rightarrow> string \<Rightarrow> dataframe option" where
  "read_csv st csv_path = (case dir st csv_path of None \<Rightarrow> None | Some f \<Rightarrow> table f)"

fun sheets_loop :: "env \<Rightarrow> state \<Rightarrow> string \<Rightarrow> string \<Rightarrow> string list \<Rightarrow> tabular_unit list" where
  "sheets_loop env st excel_path schema_name [] = []"
| "sheets_loop env st excel_path schema_name (sheet_name # sheet_names) =
     (if sheet_name = ''Notes'' then sheets_loop env st excel_path schema_name sheet_names
      else case read_excel st excel_path sheet_name of
             None \<Rightarrow> sheets_loop env st excel_path schema_name sheet_names
           | Some df \<Rightarrow>
               if length (columns df) = 0 \<or> length (rows df) = 0
               then sheets_loop env st excel_path schema_name sheet_names
               else (schema_name, sanitise env sheet_name, df)
                      # sheets_loop env st excel_path schema_name sheet_names)"

definition process_excel_file :: "env \<Rightarrow> state \<Rightarrow> string \<Rightarrow> tabular_unit list" where
  "process_excel_file env st excel_path =
     (let schema_name = sanitise env (path_stem excel_path)
      in case ExcelFile st excel_path of
           None \<Rightarrow> []
         | Some sheets \<Rightarrow> sheets_loop env st excel_path schema_name (map fst sheets))"

definition process_csv_file :: "env \<Rightarrow> state \<Rightarrow> string \<Rightarrow> tabular_unit list" where
  "process_csv_file env st csv_path =
     (let schema_name = sanitise env (path_stem csv_path);
          table_name = sanitise env (path_stem csv_path)
      in case read_csv st csv_path of
           None \<Rightarrow> []
         | Some df \<Rightarrow>
             if length (columns df) = 0 \<or> length (rows df) = 0 then []
             else [(schema_name, table_name, df)])"

subsection \<open>Database Loader\<close>

text \<open>
  \<^verbatim>\<open>load_to_duckdb\<close>: the two statements are built as text from the names and handed to
  DuckDB. An exception at any point makes the result \<open>False\<close>; the database is then as
  the statements run so far have left it.
\<close>

definition load_to_duckdb ::
  "env \<Rightarrow> string \<Rightarrow> string \<Rightarrow> dataframe \<Rightarrow> database \<Rightarrow> bool \<times> database" where
  "load_to_duckdb env schema_name table_name df d =
     (if \<not> connects env then (False, d)
      else
        (let (done, d) = sql env d (''CREATE SCHEMA IF NOT EXISTS '' @ schema_name) df
         in if \<not> done then (False, d)
            else
              (let full_table_name = schema_name @ ''.'' @ table_name;
                   (done, d) =
                     sql env d
                       (''CREATE OR REPLACE TABLE '' @ full_table_name @ '' AS SELECT * FROM df'') df
               in if \<not> done then (False, d) else (True, d))))"

subsection \<open>Pipeline Orchestrator\<close>

text \<open>The loop over what the File Fetcher yields: the events, and \<^verbatim>\<open>data_files\<close>.\<close>

fun downloading_loop :: "(status \<times> string) list \<Rightarrow> event list \<times> string list" where
  "downloading_loop [] = ([], [])"
| "downloading_loop ((status, file_path) # yielded) =
     (let (evs, data_files) = downloading_loop yielded
      in (Downloading status file_path # evs,
          if path_suffix file_path = ''.xlsx'' \<or> path_suffix file_path = ''.csv''
          then file_path # data_files else data_files))"

text \<open>
  A call of the Database Loader as the orchestrator makes it: the file being processed,
  the unit, and what \<^verbatim>\<open>load_to_duckdb\<close> returned. The model keeps the calls of a run in a
  log, oldest first; the source has no such variable.
\<close>

type_synonym call = "string \<times> tabular_unit \<times> bool"

text \<open>
  The loop over the units of one file; the counters \<^verbatim>\<open>tables_loaded\<close> and
  \<^verbatim>\<open>total_tables\<close>, the database and the log are carried along.
\<close>

fun units_loop ::
  "env \<Rightarrow> string \<Rightarrow> tabular_unit list \<Rightarrow> nat \<times> nat \<times> database \<times> call list
     \<Rightarrow> event list \<times> nat \<times> nat \<times> database \<times> call list" where
  "units_loop env data_file [] acc = ([], acc)"
| "units_loop env data_file ((schema_name, table_name, df) # units)
       (tables_loaded, total_tables, d, log) =
     (let (success, d) = load_to_duckdb env schema_name table_name df d;
          log = log @ [(data_file, (schema_name, table_name, df), success)]
      in if success then
           (let (evs, acc) =
                  units_loop env data_file units (tables_loaded + 1, total_tables + 1, d, log)
            in (Loaded data_file (schema_name @ ''.'' @ table_name) (length (rows df)) # evs, acc))
         else units_loop env data_file units (tables_loaded, total_tables, d, log))"

text \<open>The loop over \<^verbatim>\<open>data_files\<close>.\<close>

fun files_loop ::
  "env \<Rightarrow> string list \<Rightarrow> nat \<times> state \<times> call list \<Rightarrow> event list \<times> nat \<times> state \<times> call list" where
  "files_loop env [] acc = ([], acc)"
| "files_loop env (data_file # data_files) (total_tables, st, log) =
     (let processor =
            (if path_suffix data_file = ''.xlsx'' then Some (process_excel_file env st data_file)
             else if path_suffix data_file = ''.csv'' then Some (process_csv_file env st data_file)
             else None)
      in case processor of
           None \<Rightarrow>
             (let (evs, acc) = files_loop env data_files (total_tables, st, log)
              in (Processing data_file # evs, acc))
         | Some units \<Rightarrow>
             (let (loaded, tables_loaded, total_tables, d, log) =
                    units_loop env data_file units (0, total_tables, db st, log);
                  (evs, acc) = files_loop env data_files (total_tables, st\<lparr>db := d\<rparr>, log)
              in (Processing data_file # loaded @ FileComplete data_file tables_loaded # evs, acc)))"

text \<open>
  How a fully consumed run ends: the generator returns after the final \<open>complete\<close>
  event, or after the \<open>error\<close> event, or an exception leaves it.
\<close>

datatype outcome = Completed | Aborted | Raised error

text \<open>
  A run: the events in the order yielded, how it ended, the state it left, and the log of
  the calls of the Database Loader.
\<close>

record run =
  events :: "event list"
  outcome :: outcome
  final :: state
  loader_calls :: "call list"

text \<open>
  The generator \<^verbatim>\<open>imd_data_loader\<close>, consumed to its end. When the File Fetcher raises,
  the events of what it had yielded before are out already.
\<close>

definition imd_data_loader :: "env \<Rightarrow> string \<Rightarrow> state \<Rightarrow> run" where
  "imd_data_loader env page_url st =
     (let evs = [Extracting ''Fetching download links'']
      in case get_download_links env page_url st of
           (Inl (ExtractionError e), st) \<Rightarrow>
             \<lparr>events = evs @ [Error e], outcome = Aborted, final = st, loader_calls = []\<rparr>
         | (Inl OSError, st) \<Rightarrow>
             \<lparr>events = evs, outcome = Raised OSError, final = st, loader_calls = []\<rparr>
         | (Inl ValueError, st) \<Rightarrow>
             \<lparr>events = evs, outcome = Raised ValueError, final = st, loader_calls = []\<rparr>
         | (Inr files, st) \<Rightarrow>
             (let evs = evs @ [FoundFiles (''Found '' @ str_nat (length files) @ '' files'')
                                 (length files)];
                  (yielded, st, raised) = download_file_gen env files st;
                  (downloading, data_files) = downloading_loop yielded;
                  evs = evs @ downloading
              in case raised of
                   Some err \<Rightarrow>
                     \<lparr>events = evs, outcome = Raised err, final = st, loader_calls = []\<rparr>
                 | None \<Rightarrow>
                     (let evs = evs @ [LoadingFiles (''Loading '' @ str_nat (length data_files)
                                                       @ '' files into database'')
                                         (length data_files)];
                          (loading, total_tables, st, log) = files_loop env data_files (0, st, [])
                      in \<lparr>events = evs @ loading @ [Complete total_tables (db_absolute env)],
                          outcome = Completed, final = st, loader_calls = log\<rparr>)))"

section \<open>The specification's wording, and notions used in the proofs\<close>

subsection \<open>What the model relies on from the libraries\<close>

text \<open>\<^verbatim>\<open>str.lower\<close> on an ASCII text: the letters \<open>A\<close> to \<open>Z\<close> become \<open>a\<close> to \<open>z\<close>.\<close>

definition lower_char :: "char \<Rightarrow> char" where
  "lower_char c =
     (let n = (of_char c :: nat) in if 65 \<le> n \<and> n \<le> 90 then char_of (n + 32) else c)"

definition ascii_char :: "char \<Rightarrow> bool" where
  "ascii_char c = ((of_char c :: nat) < 128)"

definition ascii :: "string \<Rightarrow> bool" where
  "ascii s = list_all ascii_char s"

text \<open>
  What the proofs take from \<^verbatim>\<open>str.lower\<close>, a function of Unicode strings that the model
  leaves open. Lowering works code point by code point, but for the capital sigma, whose
  image depends on its neighbours; a string that \<^verbatim>\<open>lower\<close> leaves as it is has therefore
  no capital sigma, and each of its code points is its own lower case. So
  \<^item> lowering a lowered string changes nothing;
  \<^item> on an ASCII text, \<^verbatim>\<open>lower\<close> is \<open>lower_char\<close> on every character;
  \<^item> two strings that \<^verbatim>\<open>lower\<close> leaves as they are make, one after the other, a string
    that it leaves as it is;
  \<^item> when \<^verbatim>\<open>lower\<close> leaves a string as it is, it leaves as it is what stands before
    and what stands after any of its ASCII characters.
\<close>

definition lowers :: "(string \<Rightarrow> string) \<Rightarrow> bool" where
  "lowers L \<longleftrightarrow>
     (\<forall>s. L (L s) = L s)
     \<and> (\<forall>s. ascii s \<longrightarrow> L s = map lower_char s)
     \<and> (\<forall>s t. L s = s \<and> L t = t \<longrightarrow> L (s @ t) = s @ t)
     \<and> (\<forall>s c t. ascii_char c \<and> L (s @ c # t) = s @ c # t \<longrightarrow> L s = s \<and> L t = t)"

text \<open>
  A name that SQL reads as one plain identifier, and as no other than itself: lower-case
  ASCII letters, digits and underscores, not starting with a digit.
\<close>

definition lower_letter :: "char \<Rightarrow> bool" where
  "lower_letter c = (97 \<le> (of_char c :: nat) \<and> (of_char c :: nat) \<le> 122)"

definition is_digit :: "char \<Rightarrow> bool" where
  "is_digit c = (48 \<le> (of_char c :: nat) \<and> (of_char c :: nat) \<le> 57)"

definition sql_identifier :: "string \<Rightarrow> bool" where
  "sql_identifier s =
     (s \<noteq> [] \<and> \<not> is_digit (hd s)
      \<and> list_all (\<lambda>c. lower_letter c \<or> is_digit c \<or> c = CHR ''_'') s)"

text \<open>
  What the proofs take from DuckDB, for the two statements of the loader when the names
  in them are plain identifiers. Whether DuckDB refuses such a statement (a reserved
  word as a name, a grid it cannot store) does not depend on the database.
  \<^verbatim>\<open>CREATE SCHEMA IF NOT EXISTS s\<close> leaves the schema \<open>s\<close> in the database and changes
  nothing else. \<^verbatim>\<open>CREATE OR REPLACE TABLE s.t AS SELECT * FROM df\<close> needs the schema
  \<open>s\<close>; it makes the grid \<open>df\<close> the table \<open>s.t\<close>, in place of any table of that name,
  and changes nothing else. A statement that raises leaves the database as it was.
\<close>

definition duckdb_documented :: "env \<Rightarrow> bool" where
  "duckdb_documented env \<longleftrightarrow>
     (\<exists>refused. \<forall>d df s t. sql_identifier s \<and> sql_identifier t \<longrightarrow>
        sql env d (''CREATE SCHEMA IF NOT EXISTS '' @ s) df
          = (if refused (''CREATE SCHEMA IF NOT EXISTS '' @ s) df then (False, d)
             else (True, d\<lparr>schemas := insert s (schemas d)\<rparr>))
        \<and> sql env d (''CREATE OR REPLACE TABLE '' @ s @ ''.'' @ t @ '' AS SELECT * FROM df'') df
          = (if refused (''CREATE OR REPLACE TABLE '' @ s @ ''.'' @ t @ '' AS SELECT * FROM df'') df
                \<or> s \<notin> schemas d
             then (False, d)
             else (True, d\<lparr>tables := (tables d)((s, t) \<mapsto> df)\<rparr>)))"

subsection \<open>The Name Sanitiser as the specification words it\<close>

text \<open>
  ``lowercase, replace spaces and hyphens with \<open>_\<close>, replace \<open>&\<close> with \<open>and\<close>, strip
  parentheses characters, collapse any run of one-or-more \<open>_\<close> into a single \<open>_\<close>, trim
  leading/trailing \<open>_\<close>'', each step written on its own, on the stringified name.
\<close>

definition spaces_and_hyphens :: "string \<Rightarrow> string" where
  "spaces_and_hyphens s = map (\<lambda>c. if c = CHR '' '' \<or> c = CHR ''-'' then CHR ''_'' else c) s"

definition ampersands :: "string \<Rightarrow> string" where
  "ampersands s = concat (map (\<lambda>c. if c = CHR ''&'' then ''and'' else [c]) s)"

definition strip_parentheses :: "string \<Rightarrow> string" where
  "strip_parentheses s = filter (\<lambda>c. c \<noteq> CHR ''('' \<and> c \<noteq> CHR '')'') s"

fun collapse_runs :: "string \<Rightarrow> string" where
  "collapse_runs (x # y # s) =
     (if x = CHR ''_'' \<and> y = CHR ''_'' then collapse_runs (y # s) else x # collapse_runs (y # s))"
| "collapse_runs s = s"

fun trim_left :: "string \<Rightarrow> string" where
  "trim_left [] = []"
| "trim_left (c # s) = (if c = CHR ''_'' then trim_left s else c # s)"

definition trim :: "string \<Rightarrow> string" where
  "trim s = rev (trim_left (rev (trim_left s)))"

definition sanitise_spec :: "env \<Rightarrow> string \<Rightarrow> string" where
  "sanitise_spec env s =
     trim (collapse_runs (strip_parentheses (ampersands (spaces_and_hyphens (str_lower env s)))))"

text \<open>
  ``stringify'', for an integer: \<open>decimal s n\<close> says that \<open>s\<close> is the number \<open>n\<close> written
  in decimal digits, with no leading zero.
\<close>

definition digits_value :: "string \<Rightarrow> nat" where
  "digits_value s = foldl (\<lambda>a c. 10 * a + ((of_char c :: nat) - 48)) 0 s"

definition decimal :: "string \<Rightarrow> nat \<Rightarrow> bool" where
  "decimal s n =
     (s \<noteq> [] \<and> list_all is_digit s \<and> (hd s \<noteq> CHR ''0'' \<or> s = ''0'') \<and> digits_value s = n)"

subsection \<open>What a sanitised name looks like\<close>

text \<open>The chain of \<^verbatim>\<open>replace\<close> calls of \<open>sanitise\<close>.\<close>

definition replaced :: "string \<Rightarrow> string" where
  "replaced s =
     replace (CHR '')'') ''''
       (replace (CHR ''('') ''''
         (replace (CHR ''&'') ''and''
           (replace (CHR ''-'') ''_''
             (replace (CHR '' '') ''_'' s))))"

text \<open>A character that the chain leaves alone.\<close>

definition plain_char :: "char \<Rightarrow> bool" where
  "plain_char c =
     (c \<noteq> CHR '' '' \<and> c \<noteq> CHR ''-'' \<and> c \<noteq> CHR ''&'' \<and> c \<noteq> CHR ''('' \<and> c \<noteq> CHR '')'')"

text \<open>No two underscores next to each other.\<close>

fun single_underscores :: "string \<Rightarrow> bool" where
  "single_underscores (x # y # s) =
     (\<not> (x = CHR ''_'' \<and> y = CHR ''_'') \<and> single_underscores (y # s))"
| "single_underscores s = True"

subsection \<open>The Link Extractor's filter, link by link\<close>

text \<open>The \<^verbatim>\<open>href\<close>s of the attachments that have a primary link with one, in page order.\<close>

fun hrefs :: "attachment list \<Rightarrow> string list" where
  "hrefs [] = []"
| "hrefs (Some (Some href) # attachments) = href # hrefs attachments"
| "hrefs (a # attachments) = hrefs attachments"

definition kept :: "string \<Rightarrow> bool" where
  "kept href =
     ((endswith href ''.xlsx'' \<or> endswith href ''.csv'')
      \<and> (startswith href ''/media/'' \<or> startswith href ''http''))"

definition normalised :: "string \<Rightarrow> string" where
  "normalised href = (if startswith href ''/media/'' then BASE_URL @ href else href)"

text \<open>The last path segment: what follows the last \<open>/\<close>.\<close>

definition last_segment :: "string \<Rightarrow> string" where
  "last_segment s = rev (takeWhile (\<lambda>x. x \<noteq> CHR ''/'') (rev s))"

definition descriptor :: "string \<Rightarrow> download" where
  "descriptor href = \<lparr>url = normalised href, filename = last_segment (normalised href)\<rparr>"

text \<open>``An absolute HTTP(S) URL'', as the specification has it.\<close>

definition absolute_http_url :: "string \<Rightarrow> bool" where
  "absolute_http_url href = (startswith href ''http://'' \<or> startswith href ''https://'')"

subsection \<open>The Table Extractor, sheet by sheet\<close>

definition sheet_units ::
  "env \<Rightarrow> string \<Rightarrow> (string \<times> dataframe option) list \<Rightarrow> tabular_unit list" where
  "sheet_units env schema_name sheets =
     [(schema_name, sanitise env sheet_name, df).
        (sheet_name, Some df) \<leftarrow> sheets, sheet_name \<noteq> ''Notes'', columns df \<noteq> [] \<and> rows df \<noteq> []]"

subsection \<open>A completed run, told in one piece\<close>

text \<open>What the File Fetcher yields in a run, and the state it leaves.\<close>

definition fetched :: "env \<Rightarrow> string \<Rightarrow> state \<Rightarrow> (status \<times> string) list \<times> state" where
  "fetched env page_url st =
     (case get_download_links env page_url st of
        (Inr files, st) \<Rightarrow>
          (let (yielded, st, raised) = download_file_gen env files st in (yielded, st))
      | (Inl e, st) \<Rightarrow> ([], st))"

text \<open>The yielded paths that end in \<open>.xlsx\<close> or \<open>.csv\<close>, whatever their status.\<close>

definition data_files_of :: "(status \<times> string) list \<Rightarrow> string list" where
  "data_files_of yielded =
     [file_path. (status, file_path) \<leftarrow> yielded,
        path_suffix file_path = ''.xlsx'' \<or> path_suffix file_path = ''.csv'']"

text \<open>The Tabular Units that the matching Table Extractor yields for a data file.\<close>

definition units_of :: "env \<Rightarrow> state \<Rightarrow> string \<Rightarrow> tabular_unit list" where
  "units_of env st data_file =
     (if path_suffix data_file = ''.xlsx'' then process_excel_file env st data_file
      else process_csv_file env st data_file)"

text \<open>Every unit of every file, in order, each with its file.\<close>

definition units_in_order :: "(string \<Rightarrow> tabular_unit list) \<Rightarrow> string list \<Rightarrow> (string \<times> tabular_unit) list" where
  "units_in_order units data_files = [(f, u). f \<leftarrow> data_files, u \<leftarrow> units f]"

fun loaded_event :: "string \<Rightarrow> tabular_unit \<Rightarrow> event" where
  "loaded_event data_file (schema_name, table_name, df) =
     Loaded data_file (schema_name @ ''.'' @ table_name) (length (rows df))"

text \<open>What a call of the Database Loader was made on, and the events of the calls that succeeded.\<close>

fun call_unit :: "call \<Rightarrow> string \<times> tabular_unit" where
  "call_unit (f, u, success) = (f, u)"

definition loaded_events :: "call list \<Rightarrow> event list" where
  "loaded_events log = [loaded_event f u. (f, u, success) \<leftarrow> log, success]"

text \<open>
  The events of the loading stage, given the units of each file and the log of the calls
  of the Database Loader: for each file one pass, which takes from the log as many calls as
  the file has units. A pass is the \<open>processing\<close> event, a \<open>loaded\<close> event for each
  call that returned \<open>True\<close>, and the per-file \<open>complete\<close> event with their number.
\<close>

fun file_blocks :: "(string \<Rightarrow> tabular_unit list) \<Rightarrow> string list \<Rightarrow> call list \<Rightarrow> event list" where
  "file_blocks units [] log = []"
| "file_blocks units (f # fs) log =
     (let mine = take (length (units f)) log;
          loaded = [loaded_event f u. (g, u, success) \<leftarrow> mine, success]
      in Processing f # loaded @ FileComplete f (length loaded)
           # file_blocks units fs (drop (length (units f)) log))"

fun is_loaded :: "event \<Rightarrow> bool" where
  "is_loaded (Loaded f t n) = True"
| "is_loaded e = False"

fun is_processing :: "event \<Rightarrow> bool" where
  "is_processing (Processing f) = True"
| "is_processing e = False"

definition completed_events ::
  "env \<Rightarrow> (status \<times> string) list \<times> state \<Rightarrow> call list \<Rightarrow> event list" where
  "completed_events env result log =
     (let yielded = fst result;
          data_files = data_files_of yielded;
          loading = file_blocks (units_of env (snd result)) data_files log
      in Extracting ''Fetching download links''
           # FoundFiles (''Found '' @ str_nat (length yielded) @ '' files'') (length yielded)
           # map (\<lambda>(status, file_path). Downloading status file_path) yielded
           @ LoadingFiles (''Loading '' @ str_nat (length data_files) @ '' files into database'')
               (length data_files)
           # loading
           @ [Complete (length (filter is_loaded loading)) (db_absolute env)])"

text \<open>
  The counts of the loading stage, read off a sequence of events. A pass opens at a
  \<open>processing\<close> event and closes at the next per-file \<open>complete\<close> event; \<open>current\<close> is
  the file of the open pass with the number of \<open>loaded\<close> events met since it opened.
  Every \<open>loaded\<close> event lies in the pass of its file, a pass closes with its own file and
  with that number as \<open>tables_loaded\<close>, and no other event lies in a pass.
\<close>

fun passes :: "event list \<Rightarrow> (string \<times> nat) option \<Rightarrow> bool" where
  "passes [] current = (current = None)"
| "passes (Processing f # evs) current = (current = None \<and> passes evs (Some (f, 0)))"
| "passes (Loaded f t n # evs) current =
     (case current of None \<Rightarrow> False | Some (g, k) \<Rightarrow> g = f \<and> passes evs (Some (g, Suc k)))"
| "passes (FileComplete f n # evs) current =
     (case current of None \<Rightarrow> False | Some (g, k) \<Rightarrow> g = f \<and> n = k \<and> passes evs None)"
| "passes (e # evs) current = (current = None \<and> passes evs None)"

subsection \<open>Worked inputs\<close>

definition example_page :: "attachment list" where
  "example_page =
     [Some (Some ''/media/1/File_1.xlsx''), Some (Some ''/media/2/report.pdf''), None, Some None,
      Some (Some ''https://example.org/d/scores.csv'')]"

definition example_df :: dataframe where
  "example_df = \<lparr>columns = [''area'', ''rank''], rows = [[''E01'', ''1''], [''E02'', ''2'']]\<rparr>"

definition empty_df :: dataframe where
  "empty_df = \<lparr>columns = [], rows = []\<rparr>"

definition example_xlsx :: local_file where
  "example_xlsx =
     \<lparr>workbook = Some [(''Notes'', Some example_df), (''Data1'', Some example_df),
                       (''Data2'', Some empty_df)],
      table = None\<rparr>"

definition example_csv :: local_file where
  "example_csv = \<lparr>workbook = None, table = Some example_df\<rparr>"

text \<open>
  A DuckDB that knows the two statements of the loader, takes plain identifiers as names
  and refuses everything else.
\<close>

definition example_sql :: "database \<Rightarrow> string \<Rightarrow> dataframe \<Rightarrow> bool \<times> database" where
  "example_sql d query df =
     (if startswith query ''CREATE SCHEMA IF NOT EXISTS '' then
        (let s = drop (length ''CREATE SCHEMA IF NOT EXISTS '') query
         in if sql_identifier s then (True, d\<lparr>schemas := insert s (schemas d)\<rparr>) else (False, d))
      else if startswith query ''CREATE OR REPLACE TABLE ''
              \<and> endswith query '' AS SELECT * FROM df'' then
        (case split (CHR ''.'')
                (take (length query - length ''CREATE OR REPLACE TABLE ''
                         - length '' AS SELECT * FROM df'')
                   (drop (length ''CREATE OR REPLACE TABLE '') query)) of
           [s, t] \<Rightarrow>
             if sql_identifier s \<and> sql_identifier t \<and> s \<in> schemas d
             then (True, d\<lparr>tables := (tables d)((s, t) \<mapsto> df)\<rparr>) else (False, d)
         | _ \<Rightarrow> (False, d))
      else (False, d))"

text \<open>
  The collaborators of the worked inputs. All their texts are ASCII, on which
  \<^verbatim>\<open>str.lower\<close> is \<open>lower_char\<close> on every character; a file name of more than 255
  characters makes \<^verbatim>\<open>stat\<close> fail.
\<close>

definition example_env :: env where
  "example_env =
     \<lparr>str_lower = map lower_char,
      int_max_str_digits = 4300,
      http_page = (\<lambda>u. if u = ''page'' then Inr example_page else Inl ''404 Not Found''),
      http_asset = (\<lambda>u. if u = BASE_URL @ ''/media/1/File_1.xlsx'' then Body example_xlsx
                         else if u = ''https://example.org/d/scores.csv'' then Body example_csv
                         else RequestFailed),
      can_mkdir = True,
      stat_raises = (\<lambda>p. 255 < length p),
      connects = True,
      sql = example_sql,
      db_absolute = ''/srv/IMD2025.duckdb''\<rparr>"

definition empty_database :: database where
  "empty_database = \<lparr>schemas = {}, tables = Map.empty\<rparr>"

definition empty_state :: state where
  "empty_state = \<lparr>dir = Map.empty, requests = [], db = empty_database\<rparr>"

text \<open>A directory that already holds the spreadsheet.\<close>

definition stocked_state :: state where
  "stocked_state = empty_state\<lparr>dir := [''File_1.xlsx'' \<mapsto> example_xlsx]\<rparr>"

definition old_database :: database where
  "old_database = \<lparr>schemas = {''scores''}, tables = [(''scores'', ''scores'') \<mapsto> empty_df]\<rparr>"

text \<open>A page whose only attachment links to \<open>httpx.csv\<close>, a relative reference.\<close>

definition loose_link_page :: "attachment list" where
  "loose_link_page = [Some (Some ''httpx.csv'')]"

definition loose_link_env :: env where
  "loose_link_env = example_env\<lparr>http_page := (\<lambda>u. Inr loose_link_page)\<rparr>"



text \<open>The asset host is down: every download fails before anything is written.\<close>

definition offline_env :: env where
  "offline_env = example_env\<lparr>http_asset := (\<lambda>u. RequestFailed)\<rparr>"

text \<open>
  The connection breaks while \<open>scores.csv\<close> is being written: the header and the first
  row are on disk.
\<close>

definition partial_df :: dataframe where
  "partial_df = \<lparr>columns = [''area'', ''rank''], rows = [[''E01'', ''1'']]\<rparr>"

definition partial_csv :: local_file where
  "partial_csv = \<lparr>workbook = None, table = Some partial_df\<rparr>"

definition flaky_env :: env where
  "flaky_env =
     example_env\<lparr>http_asset :=
       (\<lambda>u. if u = ''https://example.org/d/scores.csv'' then Interrupted partial_csv
            else http_asset example_env u)\<rparr>"

text \<open>A page that lists \<open>scores.csv\<close> twice.\<close>

definition twice_page :: "attachment list" where
  "twice_page =
     [Some (Some ''https://example.org/d/scores.csv''),
      Some (Some ''https://example.org/d/scores.csv'')]"

definition twice_env :: env where
  "twice_env = example_env\<lparr>http_page := (\<lambda>u. Inr twice_page)\<rparr>"

text \<open>A DuckDB that refuses every table whose name ends in \<open>data1\<close>.\<close>

definition picky_env :: env where
  "picky_env =
     example_env\<lparr>sql :=
       (\<lambda>d query df. if endswith query ''data1 AS SELECT * FROM df'' then (False, d)
                      else example_sql d query df)\<rparr>"

section \<open>Properties\<close>

subsection \<open>Name Sanitiser: idempotence\<close>

lemma replace_absent: "old \<notin> set s \<Longrightarrow> replace old new s = s"
  by (induction s) (auto simp: replace_def)






lemma replaced_plain:
  assumes "\<forall>c\<in>set s. plain_char c"
  shows "replaced s = s"
proof -
  have "CHR '' '' \<notin> set s" "CHR ''-'' \<notin> set s" "CHR ''&'' \<notin> set s"
       "CHR ''('' \<notin> set s" "CHR '')'' \<notin> set s"
    using assms by (auto simp: plain_char_def)
  then show ?thesis
    by (simp add: replaced_def replace_absent)
qed





lemma sub_underscores_single: "single_underscores s \<Longrightarrow> sub_underscores s = s"
proof (induction s rule: single_underscores.induct)
  case (1 x y r)
  then show ?case by (cases "x = CHR ''_''") auto
qed auto







lemma sanitise_eq:
  "sanitise env s = strip (CHR ''_'') (sub_underscores (replaced (str_lower env s)))"
  by (simp add: sanitise_def replaced_def)




lemma lowers_ascii: "lowers L \<Longrightarrow> ascii s \<Longrightarrow> L s = map lower_char s"
  unfolding lowers_def by blast














lemma sanitise_name_Str: "sanitise_name env (Str s) = Inr (sanitise env s)"
  by (simp add: sanitise_name_def)

lemma sanitise_name_returns:
  "sanitise_name env x = Inr t \<Longrightarrow> \<exists>s. t = sanitise env s"
  by (auto simp: sanitise_name_def split: sum.splits)

lemma lower_char_idem: "lower_char (lower_char c) = lower_char c"
  by (auto simp: lower_char_def Let_def)

lemma lowers_lower_char: "lowers (map lower_char)"
  unfolding lowers_def
proof (intro conjI allI impI)
  fix s show "map lower_char (map lower_char s) = map lower_char s"
    by (simp add: lower_char_idem)
next
  fix s t assume "map lower_char s = s \<and> map lower_char t = t"
  then show "map lower_char (s @ t) = s @ t" by simp
next
  fix s c t assume "ascii_char c \<and> map lower_char (s @ c # t) = s @ c # t"
  then show "map lower_char s = s" "map lower_char t = t" by simp_all
qed simp

lemma lowers_example: "lowers (str_lower example_env)"
  by (simp add: example_env_def lowers_lower_char)




subsection \<open>Name Sanitiser: the order of the steps, and the arguments it takes\<close>

lemma spaces_and_hyphens_eq:
  "replace (CHR ''-'') ''_'' (replace (CHR '' '') ''_'' s) = spaces_and_hyphens s"
  by (induction s) (simp_all add: replace_def spaces_and_hyphens_def)

lemma ampersands_eq: "replace (CHR ''&'') ''and'' s = ampersands s"
  by (simp add: replace_def ampersands_def)

lemma strip_parentheses_eq:
  "replace (CHR '')'') [] (replace (CHR ''('') [] s) = strip_parentheses s"
  by (induction s) (simp_all add: replace_def strip_parentheses_def)

lemma collapse_runs_underscores:
  "collapse_runs (CHR ''_'' # s) = CHR ''_'' # collapse_runs (dropWhile (\<lambda>x. x = CHR ''_'') s)"
proof (induction s)
  case Nil show ?case by simp
next
  case (Cons y s)
  show ?case
  proof (cases "y = CHR ''_''")
    case True with Cons show ?thesis by simp
  next
    case False
    then show ?thesis by (cases s) auto
  qed
qed

lemma collapse_runs_other:
  "c \<noteq> CHR ''_'' \<Longrightarrow> collapse_runs (c # s) = c # collapse_runs s"
  by (cases s) auto

lemma sub_underscores_collapse_runs: "sub_underscores s = collapse_runs s"
proof (induction s rule: sub_underscores.induct)
  case 1 show ?case by simp
next
  case (2 c cs)
  then show ?case
    by (cases "c = CHR ''_''") (simp_all add: collapse_runs_underscores collapse_runs_other)
qed

lemma trim_left_dropWhile: "trim_left s = dropWhile (\<lambda>x. x = CHR ''_'') s"
  by (induction s) simp_all

lemma strip_trim: "strip (CHR ''_'') s = trim s"
  by (simp add: strip_def trim_def trim_left_dropWhile)

lemma sanitise_refines: "sanitise env s = sanitise_spec env s"
  unfolding sanitise_def sanitise_spec_def Let_def
  by (simp only: spaces_and_hyphens_eq strip_parentheses_eq sub_underscores_collapse_runs
        strip_trim ampersands_eq)

text \<open>The decimal digits of a number.\<close>

lemma digit_code:
  assumes "d < 10"
  shows "(of_char (digit d) :: nat) = 48 + d"
proof -
  from assms have "d = 0 \<or> d = 1 \<or> d = 2 \<or> d = 3 \<or> d = 4 \<or> d = 5 \<or> d = 6
    \<or> d = 7 \<or> d = 8 \<or> d = 9"
    by arith
  then show ?thesis by (elim disjE) (simp_all add: digit_def)
qed

lemma str_nat_unfold:
  "str_nat n = (if n < 10 then [digit n] else str_nat (n div 10) @ [digit (n mod 10)])"
  by (rule str_nat.simps)

lemma str_nat_small: "n < 10 \<Longrightarrow> str_nat n = [digit n]"
  by (subst str_nat_unfold) simp

lemma str_nat_large: "\<not> n < 10 \<Longrightarrow> str_nat n = str_nat (n div 10) @ [digit (n mod 10)]"
  by (subst str_nat_unfold) simp

lemma str_nat_length: "(k < length (str_nat n)) = (k = 0 \<or> 10 ^ k \<le> n)"
proof (induction n arbitrary: k rule: str_nat.induct)
  case (1 n)
  show ?case
  proof (cases "n < 10")
    case True
    have "10 ^ k \<le> n \<Longrightarrow> k = 0"
    proof (rule ccontr)
      assume le: "10 ^ k \<le> n" and "k \<noteq> 0"
      then obtain j where "k = Suc j" by (cases k) auto
      then have "(10::nat) \<le> 10 ^ k" by simp
      with le True show False by simp
    qed
    with True show ?thesis by (auto simp: str_nat_small)
  next
    case False
    show ?thesis
    proof (cases k)
      case 0
      then show ?thesis by (simp add: str_nat_large [OF False])
    next
      case (Suc j)
      have ih: "(j < length (str_nat (n div 10))) = (j = 0 \<or> 10 ^ j \<le> n div 10)"
        using 1 [OF False] .
      have d: "(10 ^ j \<le> n div 10) = (10 ^ Suc j \<le> n)"
        by (simp add: less_eq_div_iff_mult_less_eq mult.commute)
      have z: "j = 0 \<Longrightarrow> 10 ^ Suc j \<le> n" using False by simp
      show ?thesis
        unfolding Suc str_nat_large [OF False] using ih d z by auto
    qed
  qed
qed

lemma digits_value_snoc:
  "digits_value (s @ [c]) = 10 * digits_value s + ((of_char c :: nat) - 48)"
  by (simp add: digits_value_def)

lemma digits_value_str_nat: "digits_value (str_nat n) = n"
proof (induction n rule: str_nat.induct)
  case (1 n)
  show ?case
  proof (cases "n < 10")
    case True
    then show ?thesis by (simp add: str_nat_small digits_value_def digit_code)
  next
    case False
    have "digits_value (str_nat (n div 10)) = n div 10" using 1 [OF False] .
    then show ?thesis
      by (simp add: str_nat_large [OF False] digits_value_snoc digit_code)
  qed
qed

lemma is_digit_digit: "d < 10 \<Longrightarrow> is_digit (digit d)"
  by (simp add: is_digit_def digit_code)

lemma digits_str_nat: "list_all is_digit (str_nat n)"
proof (induction n rule: str_nat.induct)
  case (1 n)
  show ?case
  proof (cases "n < 10")
    case True
    then show ?thesis by (simp add: str_nat_small is_digit_digit)
  next
    case False
    have "list_all is_digit (str_nat (n div 10))" using 1 [OF False] .
    then show ?thesis
      by (simp add: str_nat_large [OF False] is_digit_digit)
  qed
qed

lemma str_nat_nonempty: "str_nat n \<noteq> []"
  by (subst str_nat_unfold) simp

lemma str_nat_zero: "str_nat n = ''0'' \<Longrightarrow> n = 0"
proof -
  assume "str_nat n = ''0''"
  then have "digits_value (str_nat n) = digits_value ''0''" by simp
  then have "n = digits_value ''0''" by (simp only: digits_value_str_nat)
  then show ?thesis by (simp add: digits_value_def)
qed

lemma str_nat_leading: "hd (str_nat n) \<noteq> CHR ''0'' \<or> str_nat n = ''0''"
proof (induction n rule: str_nat.induct)
  case (1 n)
  show ?case
  proof (cases "n < 10")
    case True
    have "of_char (digit n) = (48::nat) \<Longrightarrow> n = 0"
      using True by (simp add: digit_code)
    then have "digit n = CHR ''0'' \<Longrightarrow> n = 0" by simp
    then have "digit n \<noteq> CHR ''0'' \<or> n = 0" by blast
    then show ?thesis
      using True by (auto simp: str_nat_small digit_def)
  next
    case False
    have "hd (str_nat (n div 10)) \<noteq> CHR ''0'' \<or> str_nat (n div 10) = ''0''"
      using 1 [OF False] .
    moreover have "str_nat (n div 10) \<noteq> ''0''"
      using str_nat_zero [of "n div 10"] False by auto
    ultimately have "hd (str_nat (n div 10)) \<noteq> CHR ''0''" by blast
    then show ?thesis
      by (simp add: str_nat_large [OF False] str_nat_nonempty)
  qed
qed

lemma decimal_str_nat: "decimal (str_nat n) n"
  unfolding decimal_def
  by (intro conjI str_nat_nonempty digits_str_nat str_nat_leading digits_value_str_nat)

text \<open>When \<^verbatim>\<open>str\<close> raises.\<close>

lemma str_raises:
  "(str env (Num i) = Inl ValueError)
     = (0 < int_max_str_digits env \<and> 10 ^ int_max_str_digits env \<le> \<bar>i\<bar>)"
proof -
  have "(10 ^ k \<le> nat \<bar>i\<bar>) = (10 ^ k \<le> \<bar>i\<bar>)" for k
    by (simp add: le_nat_iff)
  then show ?thesis
    by (auto simp: str_nat_length)
qed

lemma sanitise_name_raises:
  "(sanitise_name env (Num i) = Inl ValueError)
     = (0 < int_max_str_digits env \<and> 10 ^ int_max_str_digits env \<le> \<bar>i\<bar>)"
proof -
  have "(sanitise_name env (Num i) = Inl ValueError) = (str env (Num i) = Inl ValueError)"
    by (cases "str env (Num i)") (auto simp: sanitise_name_def split: if_splits)
  then show ?thesis by (simp only: str_raises)
qed

text \<open>The sanitiser on a number that \<^verbatim>\<open>str\<close> has written.\<close>

lemma is_digit_plain:
  "is_digit c \<Longrightarrow> plain_char c \<and> c \<noteq> CHR ''_'' \<and> ascii_char c \<and> lower_char c = c"
  by (auto simp: is_digit_def plain_char_def ascii_char_def lower_char_def)

lemma no_underscore_single: "CHR ''_'' \<notin> set s \<Longrightarrow> single_underscores s"
  by (induction s rule: single_underscores.induct) auto

lemma dropWhile_absent: "u \<notin> set s \<Longrightarrow> dropWhile (\<lambda>x. x = u) s = s"
  by (cases s) auto

lemma strip_absent: "u \<notin> set s \<Longrightarrow> strip u s = s"
  by (simp add: strip_def dropWhile_absent)

lemma lowers_digits:
  assumes L: "lowers L" and d: "list_all is_digit s"
  shows "L s = s" "L (CHR ''-'' # s) = CHR ''-'' # s"
proof -
  from d have a: "\<forall>c\<in>set s. ascii_char c \<and> lower_char c = c"
    using is_digit_plain by (auto simp: list_all_iff)
  then have "ascii s" by (simp add: ascii_def list_all_iff)
  then have "L s = map lower_char s" by (rule lowers_ascii [OF L])
  also have "\<dots> = s" using a by (simp add: map_idI)
  finally show "L s = s" .
  from a have "ascii (CHR ''-'' # s)" by (simp add: ascii_def list_all_iff ascii_char_def)
  then have "L (CHR ''-'' # s) = map lower_char (CHR ''-'' # s)" by (rule lowers_ascii [OF L])
  also have "\<dots> = CHR ''-'' # s" using a by (simp add: map_idI lower_char_def)
  finally show "L (CHR ''-'' # s) = CHR ''-'' # s" .
qed

lemma sanitise_digits:
  assumes L: "lowers (str_lower env)" and d: "list_all is_digit s"
  shows "sanitise env s = s" "sanitise env (CHR ''-'' # s) = s"
proof -
  from d have p: "\<forall>c\<in>set s. plain_char c" and u: "CHR ''_'' \<notin> set s"
    using is_digit_plain by (auto simp: list_all_iff)
  have r: "replaced s = s" using p by (rule replaced_plain)
  have b: "sub_underscores s = s"
    using no_underscore_single [OF u] by (rule sub_underscores_single)
  show "sanitise env s = s"
    unfolding sanitise_eq lowers_digits(1) [OF L d] r b using u by (rule strip_absent)
  have "replaced (CHR ''-'' # s) = replaced ''-'' @ replaced s"
    by (simp add: replaced_def replace_def)
  also have "replaced ''-'' = ''_''"
    by (simp add: replaced_def replace_def)
  finally have r': "replaced (CHR ''-'' # s) = CHR ''_'' # s" by (simp add: r)
  have b': "sub_underscores (CHR ''_'' # s) = CHR ''_'' # s"
    by (simp add: dropWhile_absent [OF u] b)
  have "strip (CHR ''_'') (CHR ''_'' # s) = strip (CHR ''_'') s"
    by (simp add: strip_def)
  also have "\<dots> = s" using u by (rule strip_absent)
  finally show "sanitise env (CHR ''-'' # s) = s"
    unfolding sanitise_eq lowers_digits(2) [OF L d] r' b' .
qed

lemma sanitise_name_Num:
  assumes L: "lowers (str_lower env)" and ok: "sanitise_name env (Num i) \<noteq> Inl ValueError"
  shows "sanitise_name env (Num i)
           = Inr (sanitise_spec env ((if i < 0 then ''-'' else '''') @ str_nat (nat \<bar>i\<bar>)))"
    and "sanitise_name env (Num i) = Inr (str_nat (nat \<bar>i\<bar>))"
proof -
  from ok have s: "str env (Num i) = Inr (str_int i)"
    by (auto simp: sanitise_name_def split: if_splits)
  have w: "str_int i = (if i < 0 then ''-'' else '''') @ str_nat (nat \<bar>i\<bar>)"
    by (simp add: str_int_def abs_if)
  show "sanitise_name env (Num i)
          = Inr (sanitise_spec env ((if i < 0 then ''-'' else '''') @ str_nat (nat \<bar>i\<bar>)))"
    by (simp only: sanitise_name_def s w sum.case sanitise_refines)
  have "sanitise env (str_int i) = str_nat (nat \<bar>i\<bar>)"
  proof (cases "i < 0")
    case True
    then have "str_int i = CHR ''-'' # str_nat (nat \<bar>i\<bar>)"
      by (simp add: w)
    then show ?thesis
      by (simp only: sanitise_digits(2) [OF L digits_str_nat])
  next
    case False
    then have "str_int i = str_nat (nat \<bar>i\<bar>)"
      by (simp add: w)
    then show ?thesis
      by (simp only: sanitise_digits(1) [OF L digits_str_nat])
  qed
  then show "sanitise_name env (Num i) = Inr (str_nat (nat \<bar>i\<bar>))"
    by (simp only: sanitise_name_def s sum.case)
qed

lemma sanitise_name_Bool:
  assumes L: "lowers (str_lower env)"
  shows "sanitise_name env (Bool b) = Inr (sanitise_spec env (if b then ''True'' else ''False''))"
    and "sanitise_name env (Bool b) = Inr (if b then ''true'' else ''false'')"
proof -
  show "sanitise_name env (Bool b) = Inr (sanitise_spec env (if b then ''True'' else ''False''))"
    by (simp add: sanitise_name_def sanitise_refines)
  have t: "str_lower env ''True'' = map lower_char ''True''"
    by (rule lowers_ascii [OF L]) (simp add: ascii_def ascii_char_def)
  have f: "str_lower env ''False'' = map lower_char ''False''"
    by (rule lowers_ascii [OF L]) (simp add: ascii_def ascii_char_def)
  have 1: "strip (CHR ''_'') (sub_underscores (replaced (map lower_char ''True''))) = ''true''"
    by code_simp
  have 2: "strip (CHR ''_'') (sub_underscores (replaced (map lower_char ''False''))) = ''false''"
    by code_simp
  have tt: "sanitise env ''True'' = ''true''"
    unfolding sanitise_eq t by (rule 1)
  have ff: "sanitise env ''False'' = ''false''"
    unfolding sanitise_eq f by (rule 2)
  show "sanitise_name env (Bool b) = Inr (if b then ''true'' else ''false'')"
    by (cases b) (simp_all add: sanitise_name_def tt ff)
qed

lemma sanitise_examples:
  assumes L: "lowers (str_lower env)"
  shows "sanitise_name env (Str ''Income (Rank)'') = Inr ''income_rank''"
    and "sanitise_name env (Str ''Health & Disability'') = Inr ''health_and_disability''"
    and "sanitise_name env (Str ''  a -- b  '') = Inr ''a_b''"
proof -
  have a: "str_lower env ''Income (Rank)'' = map lower_char ''Income (Rank)''"
    by (rule lowers_ascii [OF L]) (simp add: ascii_def ascii_char_def)
  have b: "str_lower env ''Health & Disability'' = map lower_char ''Health & Disability''"
    by (rule lowers_ascii [OF L]) (simp add: ascii_def ascii_char_def)
  have c: "str_lower env ''  a -- b  '' = map lower_char ''  a -- b  ''"
    by (rule lowers_ascii [OF L]) (simp add: ascii_def ascii_char_def)
  have 1: "strip (CHR ''_'') (sub_underscores (replaced (map lower_char ''Income (Rank)'')))
             = ''income_rank''"
    by code_simp
  have 2: "strip (CHR ''_'')
             (sub_underscores (replaced (map lower_char ''Health & Disability'')))
             = ''health_and_disability''"
    by code_simp
  have 3: "strip (CHR ''_'') (sub_underscores (replaced (map lower_char ''  a -- b  '')))
             = ''a_b''"
    by code_simp
  show "sanitise_name env (Str ''Income (Rank)'') = Inr ''income_rank''"
    by (simp only: sanitise_name_Str sanitise_eq a 1)
  show "sanitise_name env (Str ''Health & Disability'') = Inr ''health_and_disability''"
    by (simp only: sanitise_name_Str sanitise_eq b 2)
  show "sanitise_name env (Str ''  a -- b  '') = Inr ''a_b''"
    by (simp only: sanitise_name_Str sanitise_eq c 3)
qed

text \<open>
  C4, as stated, fails on ``total over all inputs with no error conditions''. With the
  interpreter's limit of 4300 digits, \<^verbatim>\<open>str\<close> raises \<^verbatim>\<open>ValueError\<close> on the integer
  \<open>10 ^ 4300\<close>, which has 4301 digits, and \<^verbatim>\<open>sanitise_name\<close> does not catch it.
\<close>

theorem sanitise_name_value_error:
  "int_max_str_digits example_env = 4300
   \<and> sanitise_name example_env (Num (10 ^ 4300)) = Inl ValueError"
proof -
  have l: "int_max_str_digits example_env = 4300"
    by (simp add: example_env_def)
  have a: "0 < (4300::nat)"
    by simp
  have b: "(10::int) ^ 4300 \<le> \<bar>10 ^ 4300\<bar>"
    by (simp only: power_abs abs_numeral order_refl)
  from a b have "0 < int_max_str_digits example_env
                 \<and> 10 ^ int_max_str_digits example_env \<le> \<bar>(10::int) ^ 4300\<bar>"
    unfolding l by (rule conjI)
  then have "sanitise_name example_env (Num (10 ^ 4300)) = Inl ValueError"
    by (simp only: sanitise_name_raises)
  with l show ?thesis ..
qed

text \<open>
  C4, amended. The Name Sanitiser applies its steps in the order the specification
  gives. On a string it returns what the steps of \<open>sanitise_spec\<close> make of it: lowercase,
  spaces and hyphens to underscore, ampersand to \<open>and\<close>, strip parentheses, collapse
  underscore runs, trim underscores at both ends. A boolean is stringified to \<open>True\<close> or
  \<open>False\<close> first, and comes out as \<open>true\<close> or \<open>false\<close>. An integer is stringified to its
  sign and its decimal digits first, and comes out as its digits. It returns on every
  string, on every boolean and on every integer but those of more decimal digits than the
  interpreter's limit \<open>int_max_str_digits\<close>, that is, of absolute value \<open>10 ^ limit\<close> or
  more when there is a limit: on those, and only on those, it raises \<^verbatim>\<open>ValueError\<close>. It
  maps \<open>Income (Rank)\<close> to \<open>income_rank\<close>, \<open>Health & Disability\<close> to
  \<open>health_and_disability\<close> and \<open>  a -- b  \<close> to \<open>a_b\<close>. The lowering of strings is the
  library's, of which the proof uses what \<open>lowers\<close> says.
\<close>

theorem sanitise_name_steps:
  assumes "lowers (str_lower env)"
  shows "sanitise_name env (Str s) = Inr (sanitise_spec env s)
         \<and> sanitise_name env (Bool b) = Inr (sanitise_spec env (if b then ''True'' else ''False''))
         \<and> sanitise_name env (Bool b) = Inr (if b then ''true'' else ''false'')
         \<and> ((sanitise_name env (Num i) = Inl ValueError)
              = (0 < int_max_str_digits env \<and> 10 ^ int_max_str_digits env \<le> \<bar>i\<bar>))
         \<and> (sanitise_name env (Num i) \<noteq> Inl ValueError \<longrightarrow>
              (\<exists>d. decimal d (nat \<bar>i\<bar>)
                 \<and> sanitise_name env (Num i)
                     = Inr (sanitise_spec env ((if i < 0 then ''-'' else '''') @ d))
                 \<and> sanitise_name env (Num i) = Inr d))
         \<and> sanitise_name env (Str ''Income (Rank)'') = Inr ''income_rank''
         \<and> sanitise_name env (Str ''Health & Disability'') = Inr ''health_and_disability''
         \<and> sanitise_name env (Str ''  a -- b  '') = Inr ''a_b''"
proof -
  have n: "sanitise_name env (Num i) \<noteq> Inl ValueError \<longrightarrow>
             (\<exists>d. decimal d (nat \<bar>i\<bar>)
                \<and> sanitise_name env (Num i)
                    = Inr (sanitise_spec env ((if i < 0 then ''-'' else '''') @ d))
                \<and> sanitise_name env (Num i) = Inr d)"
  proof
    assume ok: "sanitise_name env (Num i) \<noteq> Inl ValueError"
    show "\<exists>d. decimal d (nat \<bar>i\<bar>)
            \<and> sanitise_name env (Num i)
                = Inr (sanitise_spec env ((if i < 0 then ''-'' else '''') @ d))
            \<and> sanitise_name env (Num i) = Inr d"
      by (intro exI [of _ "str_nat (nat \<bar>i\<bar>)"] conjI decimal_str_nat
            sanitise_name_Num [OF assms ok])
  qed
  have s: "sanitise_name env (Str s) = Inr (sanitise_spec env s)"
    by (simp add: sanitise_name_Str sanitise_refines)
  show ?thesis
    by (intro conjI s sanitise_name_Bool [OF assms] sanitise_name_raises n
          sanitise_examples [OF assms])
qed

lemma example_minus_twelve: "sanitise_name example_env (Num (- 12)) = Inr ''12''"
  by code_simp

theorem sanitise_name_steps_witness:
  "lowers (str_lower example_env)
   \<and> sanitise_name example_env (Str ''IMD (Score)'') = Inr (sanitise_spec example_env ''IMD (Score)'')
   \<and> sanitise_name example_env (Bool True) = Inr ''true''
   \<and> sanitise_name example_env (Num (- 12)) \<noteq> Inl ValueError
   \<and> (\<exists>d. decimal d (nat \<bar>- 12\<bar>)
        \<and> sanitise_name example_env (Num (- 12))
            = Inr (sanitise_spec example_env ((if (- 12 :: int) < 0 then ''-'' else '''') @ d))
        \<and> sanitise_name example_env (Num (- 12)) = Inr d)
   \<and> sanitise_name example_env (Num (- 12)) = Inr ''12''
   \<and> sanitise_name example_env (Str ''Income (Rank)'') = Inr ''income_rank''
   \<and> sanitise_name example_env (Str ''Health & Disability'') = Inr ''health_and_disability''
   \<and> sanitise_name example_env (Str ''  a -- b  '') = Inr ''a_b''"
proof -
  note t = sanitise_name_steps [OF lowers_example, of "''IMD (Score)''" True "- 12"]
  have ok: "sanitise_name example_env (Num (- 12)) \<noteq> Inl ValueError"
    by (simp add: example_minus_twelve)
  have b: "sanitise_name example_env (Bool True) = Inr ''true''"
    using conjunct1 [OF conjunct2 [OF conjunct2 [OF t]]] by simp
  have d: "\<exists>d. decimal d (nat \<bar>- 12\<bar>)
             \<and> sanitise_name example_env (Num (- 12))
                 = Inr (sanitise_spec example_env ((if (- 12 :: int) < 0 then ''-'' else '''') @ d))
             \<and> sanitise_name example_env (Num (- 12)) = Inr d"
    using conjunct1 [OF conjunct2 [OF conjunct2 [OF conjunct2 [OF conjunct2 [OF t]]]]] ok
    by (rule mp)
  show ?thesis
    by (intro conjI lowers_example conjunct1 [OF t] b ok d example_minus_twelve
          conjunct2 [OF conjunct2 [OF conjunct2 [OF conjunct2 [OF conjunct2 [OF t]]]]])
qed

subsection \<open>Link Extractor\<close>

lemma split_nonempty: "split c s \<noteq> []"
  by (induction s) (auto split: list.splits)

lemma split_no_separator: "c \<notin> set s \<Longrightarrow> split c s = [s]"
  by (induction s) auto

lemma split_separator: "c \<in> set s \<Longrightarrow> \<exists>w v ws. split c s = w # v # ws"
proof (induction s)
  case Nil
  then show ?case by simp
next
  case (Cons x s)
  obtain w ws where ws: "split c s = w # ws"
    using split_nonempty [of c s] by (cases "split c s") auto
  show ?case
  proof (cases "x = c")
    case True
    with ws show ?thesis by simp
  next
    case False
    with Cons.prems have "c \<in> set s" by simp
    then obtain w' v' ws' where "split c s = w' # v' # ws'"
      using Cons.IH by blast
    with False show ?thesis by simp
  qed
qed

lemma last_split_Cons: "c \<in> set s \<Longrightarrow> last (split c (x # s)) = last (split c s)"
proof -
  assume "c \<in> set s"
  then obtain w v ws where "split c s = w # v # ws"
    using split_separator by blast
  then show ?thesis by simp
qed

lemma last_split_segment: "last (split (CHR ''/'') s) = last_segment s"
proof (induction s)
  case Nil
  show ?case by (simp add: last_segment_def)
next
  case (Cons x s)
  show ?case
  proof (cases "CHR ''/'' \<in> set s")
    case True
    then have "takeWhile (\<lambda>x. x \<noteq> CHR ''/'') (rev s @ [x]) = takeWhile (\<lambda>x. x \<noteq> CHR ''/'') (rev s)"
      by (simp add: takeWhile_append1)
    with True Cons show ?thesis
      by (simp only: last_split_Cons last_segment_def rev.simps)
  next
    case False
    then have tw: "takeWhile (\<lambda>x. x \<noteq> CHR ''/'') (rev s) = rev s"
      by (auto simp: takeWhile_eq_all_conv)
    show ?thesis
    proof (cases "x = CHR ''/''")
      case True
      have "takeWhile (\<lambda>x. x \<noteq> CHR ''/'') (rev s @ [x]) = rev s @ takeWhile (\<lambda>x. x \<noteq> CHR ''/'') [x]"
        using False by (intro takeWhile_append2) auto
      with False True show ?thesis
        by (simp add: last_segment_def split_no_separator)
    next
      case False
      with \<open>CHR ''/'' \<notin> set s\<close> have "CHR ''/'' \<notin> set (x # s)" by simp
      then have A: "split (CHR ''/'') (x # s) = [x # s]" by (rule split_no_separator)
      have B: "takeWhile (\<lambda>x. x \<noteq> CHR ''/'') (rev (x # s)) = rev (x # s)"
        using \<open>CHR ''/'' \<notin> set (x # s)\<close> by (auto simp: takeWhile_eq_all_conv)
      show ?thesis unfolding last_segment_def A B by simp
    qed
  qed
qed

lemma attachments_loop_eq: "attachments_loop page = map descriptor (filter kept (hrefs page))"
proof (induction page rule: attachments_loop.induct)
  case (4 href attachments)
  then show ?case
    by (simp add: kept_def descriptor_def normalised_def last_split_segment Let_def)
qed simp_all

lemma startswith_trans: "startswith s p \<Longrightarrow> startswith p q \<Longrightarrow> startswith s q"
proof -
  assume sp: "startswith s p" and pq: "startswith p q"
  from pq have q: "take (length q) p = q" by (simp add: startswith_def)
  have "length (take (length q) p) = length q"
    by (simp only: q)
  then have "length q \<le> length p"
    by simp
  then have "take (length q) s = take (length q) (take (length p) s)"
    by (simp add: min_def)
  also have "\<dots> = q" using sp q by (simp add: startswith_def)
  finally show ?thesis by (simp add: startswith_def)
qed

lemma startswith_hd: "startswith s p \<Longrightarrow> p \<noteq> [] \<Longrightarrow> s \<noteq> [] \<and> hd s = hd p"
  by (cases s; cases p) (auto simp: startswith_def)

lemma absolute_http_url_kept_as_is:
  assumes "absolute_http_url href"
  shows "startswith href ''http'' \<and> normalised href = href"
proof -
  from assms consider "startswith href ''http://''" | "startswith href ''https://''"
    by (auto simp: absolute_http_url_def)
  then have h: "startswith href ''http''"
  proof cases
    case 1
    moreover have "startswith ''http://'' ''http''" by (simp add: startswith_def)
    ultimately show ?thesis by (rule startswith_trans)
  next
    case 2
    moreover have "startswith ''https://'' ''http''" by (simp add: startswith_def)
    ultimately show ?thesis by (rule startswith_trans)
  qed
  then have "hd href = CHR ''h''" using startswith_hd [of href "''http''"] by simp
  then have "\<not> startswith href ''/media/''"
    using startswith_hd [of href "''/media/''"] by auto
  with h show ?thesis by (simp add: normalised_def)
qed

text \<open>
  C5, as stated, fails on ``every other candidate is discarded''. The link
  \<open>httpx.csv\<close> is neither a \<open>/media/\<close> path nor an absolute HTTP(S) URL, and the
  Link Extractor keeps it: the guard of the source is \<^verbatim>\<open>href.startswith("http")\<close>.
\<close>

theorem get_download_links_keeps_non_url:
  "fst (get_download_links loose_link_env ''page'' empty_state)
     = Inr [\<lparr>url = ''httpx.csv'', filename = ''httpx.csv''\<rparr>]
   \<and> \<not> startswith ''httpx.csv'' ''/media/''
   \<and> \<not> absolute_http_url ''httpx.csv''"
  by (simp add: get_download_links_def loose_link_env_def loose_link_page_def example_env_def
        startswith_def endswith_def absolute_http_url_def)

text \<open>
  C5, amended. For every page that is fetched and parsed, the Link Extractor returns, in
  page order, one descriptor for each attachment whose primary link has a target that
  ends in \<open>.xlsx\<close> or \<open>.csv\<close> and that starts with \<open>/media/\<close> or with the four
  characters \<open>http\<close>, and nothing else. A \<open>/media/\<close> target is prefixed with the
  asset-host base URL, any other kept target is taken as it is; the file name is the
  last path segment of the resulting URL. An absolute HTTP(S) URL starts with \<open>http\<close>
  and is not a \<open>/media/\<close> path, so it is kept as it is.
\<close>

theorem get_download_links_links:
  assumes "http_page env page_url = Inr page"
  shows "fst (get_download_links env page_url st) = Inr (map descriptor (filter kept (hrefs page)))
         \<and> (absolute_http_url href \<longrightarrow> startswith href ''http'' \<and> normalised href = href)"
  using assms absolute_http_url_kept_as_is [of href]
  by (auto simp: get_download_links_def attachments_loop_eq)

lemma example_links:
  "map descriptor (filter kept (hrefs example_page)) =
     [\<lparr>url = ''https://assets.publishing.service.gov.uk/media/1/File_1.xlsx'',
        filename = ''File_1.xlsx''\<rparr>,
      \<lparr>url = ''https://example.org/d/scores.csv'', filename = ''scores.csv''\<rparr>]"
  by (simp add: example_page_def kept_def descriptor_def normalised_def last_segment_def
        startswith_def endswith_def BASE_URL_def)

theorem get_download_links_links_witness:
  "fst (get_download_links example_env ''page'' empty_state) =
     Inr [\<lparr>url = ''https://assets.publishing.service.gov.uk/media/1/File_1.xlsx'',
            filename = ''File_1.xlsx''\<rparr>,
          \<lparr>url = ''https://example.org/d/scores.csv'', filename = ''scores.csv''\<rparr>]
   \<and> absolute_http_url ''https://example.org/d/scores.csv''
   \<and> startswith ''https://example.org/d/scores.csv'' ''http''
   \<and> normalised ''https://example.org/d/scores.csv'' = ''https://example.org/d/scores.csv''"
proof -
  have p: "http_page example_env ''page'' = Inr example_page"
    by (simp add: example_env_def)
  have a: "absolute_http_url ''https://example.org/d/scores.csv''"
    by (simp add: absolute_http_url_def startswith_def)
  note t = get_download_links_links
    [OF p, of empty_state "''https://example.org/d/scores.csv''"]
  from t a show ?thesis
    by (simp only: example_links simp_thms)
qed


subsection \<open>Database Loader: loading twice\<close>

lemma sql_identifier_no_dot: "sql_identifier s \<Longrightarrow> CHR ''.'' \<notin> set s"
  by (auto simp: sql_identifier_def list_all_iff lower_letter_def is_digit_def)

lemma split_append_separator: "c \<notin> set a \<Longrightarrow> split c (a @ c # b) = a # split c b"
proof (induction a)
  case Nil
  show ?case by simp
next
  case (Cons x a)
  then show ?case by auto
qed

lemma split_names:
  assumes "sql_identifier s" "sql_identifier t"
  shows "split (CHR ''.'') (s @ ''.'' @ t) = [s, t]"
  using split_append_separator [OF sql_identifier_no_dot [OF assms(1)], of t]
    split_no_separator [OF sql_identifier_no_dot [OF assms(2)]]
  by simp

lemma endswith_append: "endswith (a @ p) p"
  by (simp add: endswith_def)

lemma example_sql_schema:
  assumes "sql_identifier s"
  shows "example_sql d (''CREATE SCHEMA IF NOT EXISTS '' @ s) df
           = (True, d\<lparr>schemas := insert s (schemas d)\<rparr>)"
  using assms by (simp add: example_sql_def startswith_def)

lemma example_sql_table:
  assumes "sql_identifier s" "sql_identifier t"
  shows "example_sql d (''CREATE OR REPLACE TABLE '' @ s @ ''.'' @ t @ '' AS SELECT * FROM df'') df
           = (if s \<notin> schemas d then (False, d)
              else (True, d\<lparr>tables := (tables d)((s, t) \<mapsto> df)\<rparr>))"
proof -
  let ?q = "''CREATE OR REPLACE TABLE '' @ s @ ''.'' @ t @ '' AS SELECT * FROM df''"
  have 1: "\<not> startswith ?q ''CREATE SCHEMA IF NOT EXISTS ''"
    by (simp add: startswith_def)
  have 2: "startswith ?q ''CREATE OR REPLACE TABLE ''"
    by (simp add: startswith_def)
  have "endswith ((''CREATE OR REPLACE TABLE '' @ s @ ''.'' @ t) @ '' AS SELECT * FROM df'')
          '' AS SELECT * FROM df''"
    by (rule endswith_append)
  then have 3: "endswith ?q '' AS SELECT * FROM df''"
    by (simp only: append_assoc)
  have 4: "take (length ?q - length ''CREATE OR REPLACE TABLE '' - length '' AS SELECT * FROM df'')
             (drop (length ''CREATE OR REPLACE TABLE '') ?q) = s @ ''.'' @ t"
    by simp
  show ?thesis
    unfolding example_sql_def
    by (cases "s \<in> schemas d")
       (simp_all only: 1 2 3 4 split_names [OF assms] if_True if_False simp_thms list.case assms)
qed

lemma duckdb_documented_example: "duckdb_documented example_env"
proof -
  have s: "sql example_env = example_sql"
    by (simp add: example_env_def)
  show ?thesis
    unfolding duckdb_documented_def s
  proof (rule exI [of _ "\<lambda>query df. False"], intro allI impI)
    fix d df s t
    assume "sql_identifier s \<and> sql_identifier t"
    then have i: "sql_identifier s" "sql_identifier t" by simp_all
    show "example_sql d (''CREATE SCHEMA IF NOT EXISTS '' @ s) df
            = (if False then (False, d) else (True, d\<lparr>schemas := insert s (schemas d)\<rparr>))
          \<and> example_sql d
               (''CREATE OR REPLACE TABLE '' @ s @ ''.'' @ t @ '' AS SELECT * FROM df'') df
            = (if False \<or> s \<notin> schemas d then (False, d)
               else (True, d\<lparr>tables := (tables d)((s, t) \<mapsto> df)\<rparr>))"
      by (simp only: example_sql_schema [OF i(1)] example_sql_table [OF i] if_False simp_thms)
  qed
qed

text \<open>
  C2. Loading the same Tabular Unit twice leaves the database as loading it once does:
  the second call of the Database Loader, run on the database the first one left,
  returns the same result and the same database. When the load succeeds, the table
  \<open>schema.table\<close> holds exactly the grid that was loaded (its rows and columns as a
  whole), in place of whatever the table held before: the load replaces, it does not
  append. The names of a Tabular Unit are identifiers: the statement is about names that
  SQL reads as plain identifiers, and about a DuckDB that does with the two statements
  what \<open>duckdb_documented\<close> says. A name that carries SQL of its own makes the statements
  other statements, of which nothing is claimed.
\<close>

theorem load_to_duckdb_idempotent:
  assumes "duckdb_documented env" "sql_identifier schema_name" "sql_identifier table_name"
  shows "load_to_duckdb env schema_name table_name df
           (snd (load_to_duckdb env schema_name table_name df d))
           = load_to_duckdb env schema_name table_name df d
         \<and> (fst (load_to_duckdb env schema_name table_name df d) \<longrightarrow>
              tables (snd (load_to_duckdb env schema_name table_name df d))
                (schema_name, table_name) = Some df)"
proof -
  let ?q1 = "''CREATE SCHEMA IF NOT EXISTS '' @ schema_name"
  let ?q2 = "''CREATE OR REPLACE TABLE '' @ (schema_name @ ''.'' @ table_name)
               @ '' AS SELECT * FROM df''"
  from assms obtain refused where
    a: "\<And>d. sql env d ?q1 df
               = (if refused ?q1 df then (False, d)
                  else (True, d\<lparr>schemas := insert schema_name (schemas d)\<rparr>))"
    and b: "\<And>d. sql env d ?q2 df
               = (if refused ?q2 df \<or> schema_name \<notin> schemas d then (False, d)
                  else (True, d\<lparr>tables := (tables d)((schema_name, table_name) \<mapsto> df)\<rparr>))"
    unfolding duckdb_documented_def by (auto simp only: append_assoc)
  show ?thesis
    unfolding load_to_duckdb_def Let_def a b
    by (simp add: insert_absorb)
qed

lemma example_load:
  "load_to_duckdb example_env ''scores'' ''scores'' example_df old_database
     = (True, old_database\<lparr>tables := (tables old_database)((''scores'', ''scores'') \<mapsto> example_df)\<rparr>)"
proof -
  have i: "sql_identifier ''scores''"
    by (simp add: sql_identifier_def lower_letter_def is_digit_def)
  have c: "connects example_env" and s: "sql example_env = example_sql"
    by (simp_all add: example_env_def)
  have m: "''scores'' \<in> schemas old_database"
    by (simp add: old_database_def)
  have 1: "example_sql old_database (''CREATE SCHEMA IF NOT EXISTS '' @ ''scores'') example_df
             = (True, old_database)"
    unfolding example_sql_schema [OF i] using m by (simp add: insert_absorb)
  have 2: "example_sql old_database
             (''CREATE OR REPLACE TABLE '' @ (''scores'' @ ''.'' @ ''scores'')
                @ '' AS SELECT * FROM df'') example_df
             = (True, old_database\<lparr>tables :=
                  (tables old_database)((''scores'', ''scores'') \<mapsto> example_df)\<rparr>)"
    using example_sql_table [OF i i, of old_database example_df] m
    by (simp only: append_assoc if_False simp_thms)
  show ?thesis
    unfolding load_to_duckdb_def Let_def s
    by (simp only: c 1 2 simp_thms if_True if_False prod.case)
qed

theorem load_to_duckdb_idempotent_witness:
  "duckdb_documented example_env
   \<and> sql_identifier ''scores''
   \<and> load_to_duckdb example_env ''scores'' ''scores'' example_df
       (snd (load_to_duckdb example_env ''scores'' ''scores'' example_df old_database))
       = load_to_duckdb example_env ''scores'' ''scores'' example_df old_database
   \<and> fst (load_to_duckdb example_env ''scores'' ''scores'' example_df old_database)
   \<and> tables old_database (''scores'', ''scores'') = Some empty_df
   \<and> tables (snd (load_to_duckdb example_env ''scores'' ''scores'' example_df old_database))
        (''scores'', ''scores'') = Some example_df"
proof -
  have i: "sql_identifier ''scores''"
    by (simp add: sql_identifier_def lower_letter_def is_digit_def)
  note t = load_to_duckdb_idempotent
    [OF duckdb_documented_example i i, of example_df old_database]
  have ok: "fst (load_to_duckdb example_env ''scores'' ''scores'' example_df old_database)"
    by (simp add: example_load)
  have old: "tables old_database (''scores'', ''scores'') = Some empty_df"
    by (simp add: old_database_def)
  from conjunct2 [OF t] ok
  have new: "tables (snd (load_to_duckdb example_env ''scores'' ''scores'' example_df old_database))
               (''scores'', ''scores'') = Some example_df"
    by (rule mp)
  show ?thesis
    by (intro conjI duckdb_documented_example i conjunct1 [OF t] ok old new)
qed

subsection \<open>File Fetcher: files that are already there\<close>


lemma fetch_raises:
  "stat_raises env (filename file_info) \<Longrightarrow> fetch env file_info st = Inl OSError"
  by (simp add: fetch_def path_exists_def)

text \<open>When \<^verbatim>\<open>file_path.exists()\<close> raises, the generator ends with what it has yielded so far.\<close>

lemma download_loop_raises:
  "stat_raises env (filename file_info) \<Longrightarrow>
     download_loop env (file_info # files) st = ([], st, Some OSError)"
  by (simp add: fetch_raises)







subsection \<open>Table Extractor: spreadsheets\<close>

lemma read_excel_sheet:
  assumes "ExcelFile st excel_path = Some sheets" "distinct (map fst sheets)"
    "(sheet_name, r) \<in> set sheets"
  shows "read_excel st excel_path sheet_name = r"
proof -
  from assms(2,3) have "map_of sheets sheet_name = Some r" by (rule map_of_is_SomeI)
  with assms(1) show ?thesis by (simp add: read_excel_def)
qed

lemma sheet_units_Cons:
  "sheet_units env schema_name ((sheet_name, r) # sheets) =
     (case r of
        None \<Rightarrow> sheet_units env schema_name sheets
      | Some df \<Rightarrow>
          if sheet_name \<noteq> ''Notes'' \<and> columns df \<noteq> [] \<and> rows df \<noteq> []
          then (schema_name, sanitise env sheet_name, df) # sheet_units env schema_name sheets
          else sheet_units env schema_name sheets)"
  by (simp add: sheet_units_def split: option.splits)

lemma sheet_units_Nil: "sheet_units env schema_name [] = []"
  by (simp add: sheet_units_def)

lemma sheets_loop_units:
  assumes "ExcelFile st excel_path = Some sheets" "distinct (map fst sheets)"
  shows "set some \<subseteq> set sheets \<Longrightarrow>
         sheets_loop env st excel_path schema_name (map fst some) = sheet_units env schema_name some"
proof (induction some)
  case Nil
  show ?case by (simp add: sheet_units_Nil)
next
  case (Cons sheet some)
  obtain sheet_name r where sheet: "sheet = (sheet_name, r)" by (cases sheet)
  with Cons.prems have "(sheet_name, r) \<in> set sheets" by simp
  then have r: "read_excel st excel_path sheet_name = r"
    by (rule read_excel_sheet [OF assms])
  from Cons have ih:
    "sheets_loop env st excel_path schema_name (map fst some) = sheet_units env schema_name some"
    by simp
  show ?case
    by (cases r) (simp_all add: sheet sheet_units_Cons r ih)
qed

lemma process_excel_file_units:
  assumes "ExcelFile st excel_path = Some sheets" "distinct (map fst sheets)"
  shows "process_excel_file env st excel_path
           = sheet_units env (sanitise env (path_stem excel_path)) sheets"
  using sheets_loop_units [OF assms, of sheets] assms(1)
  by (simp add: process_excel_file_def)

lemma process_excel_file_example:
  "process_excel_file example_env stocked_state ''File_1.xlsx''
     = [(''file_1'', ''data1'', example_df)]"
proof -
  have e: "ExcelFile stocked_state ''File_1.xlsx'' =
             Some [(''Notes'', Some example_df), (''Data1'', Some example_df),
                   (''Data2'', Some empty_df)]"
    by (simp add: ExcelFile_def stocked_state_def example_xlsx_def)
  have n: "sanitise example_env ''Data1'' = ''data1''" by code_simp
  have s: "sanitise example_env (path_stem ''File_1.xlsx'') = ''file_1''" by code_simp
  have d: "columns example_df \<noteq> [] \<and> rows example_df \<noteq> []"
    by (simp add: example_df_def)
  show ?thesis
    unfolding process_excel_file_units [OF e, simplified] s
    by (simp add: sheet_units_Cons sheet_units_Nil n d empty_df_def)
qed

text \<open>
  C7. For a spreadsheet that opens, with its sheets under distinct names, the
  spreadsheet Table Extractor yields, in file order, one Tabular Unit for each sheet
  that is not named exactly \<open>Notes\<close>, that parses, and whose grid has at least one
  column and at least one row; every other sheet is skipped without an error. The
  unit's table name is the sanitised sheet name and its schema name is the sanitised
  file stem. In particular the workbook \<open>File_1.xlsx\<close> with the sheets \<open>Notes\<close>,
  \<open>Data1\<close> and an empty \<open>Data2\<close> yields exactly one unit, \<open>file_1.data1\<close>.
\<close>

theorem process_excel_file_sheets:
  assumes "ExcelFile st excel_path = Some sheets" "distinct (map fst sheets)"
  shows "process_excel_file env st excel_path
           = sheet_units env (sanitise env (path_stem excel_path)) sheets
         \<and> process_excel_file example_env stocked_state ''File_1.xlsx''
           = [(''file_1'', ''data1'', example_df)]"
  using process_excel_file_units [OF assms] process_excel_file_example by simp

theorem process_excel_file_sheets_witness:
  "ExcelFile stocked_state ''File_1.xlsx''
     = Some [(''Notes'', Some example_df), (''Data1'', Some example_df), (''Data2'', Some empty_df)]
   \<and> distinct (map fst [(''Notes'', Some example_df), (''Data1'', Some example_df),
                          (''Data2'', Some empty_df)])
   \<and> process_excel_file example_env stocked_state ''File_1.xlsx''
       = sheet_units example_env (sanitise example_env (path_stem ''File_1.xlsx''))
           [(''Notes'', Some example_df), (''Data1'', Some example_df), (''Data2'', Some empty_df)]
   \<and> process_excel_file example_env stocked_state ''File_1.xlsx''
       = [(''file_1'', ''data1'', example_df)]"
proof -
  let ?sheets = "[(''Notes'', Some example_df), (''Data1'', Some example_df),
                  (''Data2'', Some empty_df)]"
  have e: "ExcelFile stocked_state ''File_1.xlsx'' = Some ?sheets"
    by (simp add: ExcelFile_def stocked_state_def example_xlsx_def)
  have d: "distinct (map fst ?sheets)" by simp
  note t = process_excel_file_sheets [OF e d]
  show ?thesis
    by (intro conjI e d conjunct1 [OF t] conjunct2 [OF t])
qed

subsection \<open>Orchestrator: the fatal path\<close>

text \<open>
  C8. If the Link Extractor raises \<open>ExtractionError\<close>, the run has exactly two
  events, the \<open>extracting\<close> event and then the \<open>error\<close> event with the message of
  the exception, and it ends there: no event of the stages \<open>downloading\<close>,
  \<open>loading\<close> or \<open>complete\<close> is emitted.
\<close>

theorem extraction_error_run:
  assumes "fst (get_download_links env page_url st) = Inl (ExtractionError message)"
  shows "events (imd_data_loader env page_url st)
           = [Extracting ''Fetching download links'', Error message]
         \<and> outcome (imd_data_loader env page_url st) = Aborted
         \<and> (\<forall>e \<in> set (events (imd_data_loader env page_url st)).
               stage e \<noteq> SDownloading \<and> stage e \<noteq> SLoading \<and> stage e \<noteq> SComplete)"
proof -
  obtain r st' where g: "get_download_links env page_url st = (r, st')"
    by (cases "get_download_links env page_url st")
  with assms have "r = Inl (ExtractionError message)" by simp
  with g show ?thesis by (simp add: imd_data_loader_def)
qed

theorem extraction_error_run_witness:
  "fst (get_download_links example_env ''moved'' empty_state)
     = Inl (ExtractionError ''Failed to extract download links: 404 Not Found'')
   \<and> events (imd_data_loader example_env ''moved'' empty_state)
       = [Extracting ''Fetching download links'',
          Error ''Failed to extract download links: 404 Not Found'']
   \<and> outcome (imd_data_loader example_env ''moved'' empty_state) = Aborted"
proof -
  have g: "fst (get_download_links example_env ''moved'' empty_state)
             = Inl (ExtractionError ''Failed to extract download links: 404 Not Found'')"
    by (simp add: get_download_links_def example_env_def)
  note t = extraction_error_run [OF g]
  show ?thesis
    by (intro conjI g conjunct1 [OF t] conjunct1 [OF conjunct2 [OF t]])
qed

subsection \<open>Orchestrator: the events of a completed run\<close>

lemma loaded_events_Nil: "loaded_events [] = []"
  by (simp add: loaded_events_def)

lemma loaded_events_Cons:
  "loaded_events ((f, u, success) # log)
     = (if success then loaded_event f u # loaded_events log else loaded_events log)"
  by (simp add: loaded_events_def)

lemma loaded_events_append: "loaded_events (xs @ ys) = loaded_events xs @ loaded_events ys"
  by (simp add: loaded_events_def)

lemma is_loaded_loaded_event: "is_loaded (loaded_event f u)"
  by (cases u) simp

lemma filter_loaded_events: "filter is_loaded (loaded_events log) = loaded_events log"
  by (induction log) (auto simp: loaded_events_Nil loaded_events_Cons is_loaded_loaded_event)

lemma units_loop_trace:
  "units_loop env f units (k, n, d, log) = (evs, k', n', d', log') \<Longrightarrow>
     \<exists>new. log' = log @ new \<and> map call_unit new = map (Pair f) units
            \<and> evs = loaded_events new \<and> k' = k + length evs \<and> n' = n + length evs"
proof (induction units arbitrary: k n d log evs k' n' d' log')
  case Nil
  then have "log' = log @ [] \<and> map call_unit [] = map (Pair f) []
             \<and> evs = loaded_events [] \<and> k' = k + length evs \<and> n' = n + length evs"
    by (simp add: loaded_events_Nil)
  then show ?case by blast
next
  case (Cons unit units)
  obtain schema_name table_name df where u: "unit = (schema_name, table_name, df)"
    by (cases unit)
  obtain success d1 where l: "load_to_duckdb env schema_name table_name df d = (success, d1)"
    by (cases "load_to_duckdb env schema_name table_name df d")
  let ?c = "(f, (schema_name, table_name, df), success)"
  show ?case
  proof (cases success)
    case True
    obtain evs1 k1 n1 d2 log1 where r:
      "units_loop env f units (k + 1, n + 1, d1, log @ [?c]) = (evs1, k1, n1, d2, log1)"
      by (cases "units_loop env f units (k + 1, n + 1, d1, log @ [?c])")
    from Cons.IH [OF r] obtain new where new:
      "log1 = (log @ [?c]) @ new" "map call_unit new = map (Pair f) units"
      "evs1 = loaded_events new" "k1 = k + 1 + length evs1" "n1 = n + 1 + length evs1"
      by blast
    from Cons.prems u l True r have e:
      "evs = Loaded f (schema_name @ ''.'' @ table_name) (length (rows df)) # evs1"
      "k' = k1" "n' = n1" "log' = log1"
      by simp_all
    have "log' = log @ (?c # new) \<and> map call_unit (?c # new) = map (Pair f) (unit # units)
          \<and> evs = loaded_events (?c # new) \<and> k' = k + length evs \<and> n' = n + length evs"
      using e new True u by (simp add: loaded_events_Cons)
    then show ?thesis by blast
  next
    case False
    from Cons.prems u l False have r:
      "units_loop env f units (k, n, d1, log @ [?c]) = (evs, k', n', d', log')"
      by simp
    from Cons.IH [OF r] obtain new where new:
      "log' = (log @ [?c]) @ new" "map call_unit new = map (Pair f) units"
      "evs = loaded_events new" "k' = k + length evs" "n' = n + length evs"
      by blast
    have "log' = log @ (?c # new) \<and> map call_unit (?c # new) = map (Pair f) (unit # units)
          \<and> evs = loaded_events (?c # new) \<and> k' = k + length evs \<and> n' = n + length evs"
      using new False u by (simp add: loaded_events_Cons)
    then show ?thesis by blast
  qed
qed

lemma ExcelFile_db [simp]: "ExcelFile (st\<lparr>db := d\<rparr>) p = ExcelFile st p"
  by (simp add: ExcelFile_def)

lemma read_excel_db [simp]: "read_excel (st\<lparr>db := d\<rparr>) p n = read_excel st p n"
  by (simp add: read_excel_def)

lemma read_csv_db [simp]: "read_csv (st\<lparr>db := d\<rparr>) p = read_csv st p"
  by (simp add: read_csv_def)

lemma sheets_loop_db [simp]:
  "sheets_loop env (st\<lparr>db := d\<rparr>) p schema_name ns = sheets_loop env st p schema_name ns"
  by (induction ns) (simp_all split: option.splits)

lemma units_of_db [simp]: "units_of env (st\<lparr>db := d\<rparr>) = units_of env st"
  by (rule ext)
     (simp add: units_of_def process_excel_file_def process_csv_file_def split: option.splits)

text \<open>The calls of one pass are calls for the file of the pass.\<close>

lemma own_calls:
  "map call_unit new = map (Pair f) units \<Longrightarrow>
     [loaded_event f u. (g, u, success) \<leftarrow> new, success] = loaded_events new"
proof (induction new arbitrary: units)
  case Nil
  show ?case by (simp add: loaded_events_Nil)
next
  case (Cons c new)
  obtain g u success where c: "c = (g, u, success)" by (cases c)
  from Cons.prems obtain units' where units: "units = (snd (call_unit c)) # units'"
    and f: "fst (call_unit c) = f" and rest: "map call_unit new = map (Pair f) units'"
    by (cases units) auto
  from Cons.IH [OF rest] f c show ?case
    by (simp add: loaded_events_Cons)
qed

lemma file_blocks_Cons:
  assumes "map call_unit new1 = map (Pair f) (units f)"
  shows "file_blocks units (f # fs) (new1 @ new2)
           = Processing f # loaded_events new1 @ FileComplete f (length (loaded_events new1))
               # file_blocks units fs new2"
proof -
  have "length (map call_unit new1) = length (map (Pair f) (units f))"
    using assms by simp
  then have len: "length new1 = length (units f)" by simp
  then have t: "take (length (units f)) (new1 @ new2) = new1"
    and d: "drop (length (units f)) (new1 @ new2) = new2"
    by simp_all
  show ?thesis
    by (simp only: file_blocks.simps Let_def t d own_calls [OF assms])
qed

lemma units_in_order_Cons:
  "units_in_order units (f # fs) = map (Pair f) (units f) @ units_in_order units fs"
  by (simp add: units_in_order_def)

lemma files_loop_trace:
  assumes "\<forall>f\<in>set data_files. path_suffix f = ''.xlsx'' \<or> path_suffix f = ''.csv''"
    and "files_loop env data_files (n, st, log) = (evs, n', st', log')"
  shows "\<exists>new. log' = log @ new
           \<and> map call_unit new = units_in_order (units_of env st) data_files
           \<and> evs = file_blocks (units_of env st) data_files new
           \<and> filter is_loaded evs = loaded_events new
           \<and> n' = n + length (filter is_loaded evs)"
  using assms
proof (induction data_files arbitrary: n st log evs n' st' log')
  case Nil
  then have "log' = log @ [] \<and> map call_unit [] = units_in_order (units_of env st) []
             \<and> evs = file_blocks (units_of env st) [] []
             \<and> filter is_loaded evs = loaded_events []
             \<and> n' = n + length (filter is_loaded evs)"
    by (simp add: units_in_order_def loaded_events_Nil)
  then show ?case by blast
next
  case (Cons data_file data_files)
  let ?units = "units_of env st data_file"
  obtain loaded k m d log1 where u:
    "units_loop env data_file ?units (0, n, db st, log) = (loaded, k, m, d, log1)"
    by (cases "units_loop env data_file ?units (0, n, db st, log)")
  from units_loop_trace [OF u] obtain new1 where new1:
    "log1 = log @ new1" "map call_unit new1 = map (Pair data_file) ?units"
    "loaded = loaded_events new1" "k = length loaded" "m = n + length loaded"
    by auto
  obtain evs2 n2 st2 log2 where r:
    "files_loop env data_files (m, st\<lparr>db := d\<rparr>, log1) = (evs2, n2, st2, log2)"
    by (cases "files_loop env data_files (m, st\<lparr>db := d\<rparr>, log1)")
  from Cons.prems(1) have rest:
    "\<forall>f\<in>set data_files. path_suffix f = ''.xlsx'' \<or> path_suffix f = ''.csv''"
    by simp
  from Cons.IH [OF rest r] obtain new2 where new2:
    "log2 = log1 @ new2"
    "map call_unit new2 = units_in_order (units_of env st) data_files"
    "evs2 = file_blocks (units_of env st) data_files new2"
    "filter is_loaded evs2 = loaded_events new2"
    "n2 = m + length (filter is_loaded evs2)"
    by (auto simp only: units_of_db)
  from Cons.prems(1) have sfx:
    "path_suffix data_file = ''.xlsx'' \<or> path_suffix data_file = ''.csv''"
    by simp
  from sfx u r Cons.prems(2) have e:
    "evs = Processing data_file # loaded @ FileComplete data_file k # evs2"
    and n: "n' = n2" and l: "log' = log2"
    by (auto simp: units_of_def Let_def)
  have b: "file_blocks (units_of env st) (data_file # data_files) (new1 @ new2)
             = Processing data_file # loaded @ FileComplete data_file k # evs2"
    unfolding file_blocks_Cons [where units = "units_of env st" and f = data_file, OF new1(2)]
      new1(3,4) new2(3) ..
  have f: "filter is_loaded evs = loaded_events (new1 @ new2)"
    unfolding e loaded_events_append new1(3)
    by (simp add: filter_loaded_events new2(4))
  have c: "n' = n + length (filter is_loaded evs)"
    unfolding f loaded_events_append n new2(5) new2(4) new1(5) new1(3) by simp
  have "log' = log @ (new1 @ new2)
        \<and> map call_unit (new1 @ new2) = units_in_order (units_of env st) (data_file # data_files)
        \<and> evs = file_blocks (units_of env st) (data_file # data_files) (new1 @ new2)
        \<and> filter is_loaded evs = loaded_events (new1 @ new2)
        \<and> n' = n + length (filter is_loaded evs)"
    using l new2(1) new1(1) new1(2) new2(2) e b f c
    by (simp add: units_in_order_Cons)
  then show ?case by blast
qed

lemma downloading_loop_eq:
  "downloading_loop yielded =
     (map (\<lambda>(status, file_path). Downloading status file_path) yielded, data_files_of yielded)"
  by (induction yielded) (auto simp: data_files_of_def)

lemma data_files_suffix:
  "\<forall>f\<in>set (data_files_of yielded). path_suffix f = ''.xlsx'' \<or> path_suffix f = ''.csv''"
  by (auto simp: data_files_of_def)

lemma download_loop_length:
  "download_loop env files st = (yielded, st', None) \<Longrightarrow> length yielded = length files"
proof (induction files arbitrary: st yielded st')
  case Nil
  then show ?case by simp
next
  case (Cons file_info files)
  show ?case
  proof (cases "fetch env file_info st")
    case (Inl e)
    with Cons.prems show ?thesis by simp
  next
    case (Inr r)
    obtain status st1 where r: "r = (status, st1)" by (cases r)
    obtain y s' x where l: "download_loop env files st1 = (y, s', x)"
      by (cases "download_loop env files st1")
    from Inr r l Cons.prems have "yielded = (status, filename file_info) # y" "x = None"
      by simp_all
    with Cons.IH [of st1 y s'] l show ?thesis by simp
  qed
qed

text \<open>A run completes when the page is fetched and parsed and the File Fetcher does not raise.\<close>

lemma outcome_completed:
  assumes "outcome (imd_data_loader env page_url st) = Completed"
  obtains page yielded st1 where
    "http_page env page_url = Inr page"
    "download_file_gen env (attachments_loop page) (st\<lparr>requests := requests st @ [page_url]\<rparr>)
       = (yielded, st1, None)"
proof -
  let ?st0 = "st\<lparr>requests := requests st @ [page_url]\<rparr>"
  show thesis
  proof (cases "http_page env page_url")
    case (Inl e)
    with assms show ?thesis
      by (simp add: imd_data_loader_def get_download_links_def)
  next
    case (Inr page)
    obtain yielded st1 raised where
      d: "download_file_gen env (attachments_loop page) ?st0 = (yielded, st1, raised)"
      by (cases "download_file_gen env (attachments_loop page) ?st0")
    have "raised = None"
    proof (cases raised)
      case (Some err)
      with assms Inr d show ?thesis
        by (simp add: imd_data_loader_def get_download_links_def Let_def split_beta)
    qed simp
    with that Inr d show ?thesis by simp
  qed
qed

lemma completed_run:
  assumes "outcome (imd_data_loader env page_url st) = Completed"
  shows "events (imd_data_loader env page_url st)
           = completed_events env (fetched env page_url st)
               (loader_calls (imd_data_loader env page_url st))"
    and "map call_unit (loader_calls (imd_data_loader env page_url st))
           = units_in_order (units_of env (snd (fetched env page_url st)))
               (data_files_of (fst (fetched env page_url st)))"
    and "filter is_loaded (events (imd_data_loader env page_url st))
           = loaded_events (loader_calls (imd_data_loader env page_url st))"
proof -
  let ?st0 = "st\<lparr>requests := requests st @ [page_url]\<rparr>"
  from assms obtain page yielded st1 where p: "http_page env page_url = Inr page"
    and d: "download_file_gen env (attachments_loop page) ?st0 = (yielded, st1, None)"
    by (rule outcome_completed)
  let ?files = "attachments_loop page"
  have g: "get_download_links env page_url st = (Inr ?files, ?st0)"
    using p by (simp add: get_download_links_def)
  have f: "fetched env page_url st = (yielded, st1)"
    using g d by (simp add: fetched_def)
  have "can_mkdir env"
    using d by (auto simp: download_file_gen_def split: if_splits)
  then have "download_loop env ?files ?st0 = (yielded, st1, None)"
    using d by (simp add: download_file_gen_def)
  then have len: "length yielded = length ?files"
    by (rule download_loop_length)
  obtain loading total st2 log where fl:
    "files_loop env (data_files_of yielded) (0, st1, []) = (loading, total, st2, log)"
    by (cases "files_loop env (data_files_of yielded) (0, st1, [])")
  from files_loop_trace [OF data_files_suffix fl] obtain new where new:
    "log = [] @ new"
    "map call_unit new = units_in_order (units_of env st1) (data_files_of yielded)"
    "loading = file_blocks (units_of env st1) (data_files_of yielded) new"
    "filter is_loaded loading = loaded_events new"
    "total = 0 + length (filter is_loaded loading)"
    by blast
  from new(1) have n: "new = log" by simp
  have c: "map call_unit log = units_in_order (units_of env st1) (data_files_of yielded)"
    and l: "loading = file_blocks (units_of env st1) (data_files_of yielded) log"
    and fi: "filter is_loaded loading = loaded_events log"
    and t: "total = length (filter is_loaded loading)"
    using new(2-5) unfolding n by simp_all
  have run: "imd_data_loader env page_url st =
          \<lparr>events = [Extracting ''Fetching download links'',
             FoundFiles (''Found '' @ str_nat (length ?files) @ '' files'') (length ?files)]
            @ map (\<lambda>(status, file_path). Downloading status file_path) yielded
            @ [LoadingFiles (''Loading '' @ str_nat (length (data_files_of yielded))
                              @ '' files into database'') (length (data_files_of yielded))]
            @ loading @ [Complete total (db_absolute env)],
           outcome = Completed, final = st2, loader_calls = log\<rparr>"
    using g d fl by (simp add: imd_data_loader_def downloading_loop_eq)
  have dl: "filter is_loaded (map (\<lambda>(status, file_path). Downloading status file_path) yielded) = []"
    by (induction yielded) auto
  show "events (imd_data_loader env page_url st)
          = completed_events env (fetched env page_url st)
              (loader_calls (imd_data_loader env page_url st))"
    unfolding run f completed_events_def Let_def
    by (simp add: l t len)
  show "map call_unit (loader_calls (imd_data_loader env page_url st))
          = units_in_order (units_of env (snd (fetched env page_url st)))
              (data_files_of (fst (fetched env page_url st)))"
    unfolding run f using c by simp
  show "filter is_loaded (events (imd_data_loader env page_url st))
          = loaded_events (loader_calls (imd_data_loader env page_url st))"
    unfolding run using fi dl by simp
qed

lemma example_run_events:
  "events (imd_data_loader example_env ''page'' empty_state) =
     [Extracting ''Fetching download links'', FoundFiles ''Found 2 files'' 2,
      Downloading Downloaded ''File_1.xlsx'', Downloading Downloaded ''scores.csv'',
      LoadingFiles ''Loading 2 files into database'' 2,
      Processing ''File_1.xlsx'', Loaded ''File_1.xlsx'' ''file_1.data1'' 2,
      FileComplete ''File_1.xlsx'' 1,
      Processing ''scores.csv'', Loaded ''scores.csv'' ''scores.scores'' 2,
      FileComplete ''scores.csv'' 1,
      Complete 2 ''/srv/IMD2025.duckdb'']"
  by code_simp

lemma example_run_completed:
  "outcome (imd_data_loader example_env ''page'' empty_state) = Completed"
  by code_simp

lemma stage_loaded_event: "stage (loaded_event f u) = SLoading"
  by (cases u) simp

lemma stage_file_blocks: "e \<in> set (file_blocks units fs log) \<Longrightarrow> stage e = SLoading"
proof (induction fs arbitrary: log)
  case Nil
  then show ?case by simp
next
  case (Cons f fs)
  then show ?case
    by (auto simp: Let_def stage_loaded_event)
qed

lemma nth_order:
  assumes "\<forall>e\<in>set A. stage e \<noteq> SLoading" "\<forall>e\<in>set B. stage e \<noteq> SDownloading"
    and "i < length (A @ B)" "j < length (A @ B)"
    and "stage ((A @ B) ! i) = SDownloading" "stage ((A @ B) ! j) = SLoading"
  shows "i < j"
proof -
  have i: "i < length A"
  proof (rule ccontr)
    assume "\<not> i < length A"
    then have "(A @ B) ! i = B ! (i - length A)" "i - length A < length B"
      using assms(3) by (simp_all add: nth_append)
    then have "(A @ B) ! i \<in> set B" by simp
    with assms(2,5) show False by auto
  qed
  have j: "\<not> j < length A"
  proof
    assume "j < length A"
    then have "(A @ B) ! j \<in> set A" by (simp add: nth_append)
    with assms(1,6) show False by auto
  qed
  from i j show ?thesis by simp
qed

text \<open>The events of a completed run: up to the last download, and from there on.\<close>

lemma completed_events_parts:
  "\<exists>A B total.
     completed_events env r log = A @ B @ [Complete total (db_absolute env)]
     \<and> (\<forall>e\<in>set A. stage e = SExtracting \<or> stage e = SDownloading)
     \<and> (\<forall>e\<in>set B. stage e = SLoading)"
proof -
  let ?yielded = "fst r"
  let ?data_files = "data_files_of ?yielded"
  let ?loading = "file_blocks (units_of env (snd r)) ?data_files log"
  let ?A = "Extracting ''Fetching download links''
              # FoundFiles (''Found '' @ str_nat (length ?yielded) @ '' files'') (length ?yielded)
              # map (\<lambda>(status, file_path). Downloading status file_path) ?yielded"
  let ?B = "LoadingFiles (''Loading '' @ str_nat (length ?data_files) @ '' files into database'')
              (length ?data_files) # ?loading"
  have "completed_events env r log
          = ?A @ ?B @ [Complete (length (filter is_loaded ?loading)) (db_absolute env)]"
    by (simp add: completed_events_def Let_def)
  moreover have "\<forall>e\<in>set ?A. stage e = SExtracting \<or> stage e = SDownloading"
    by auto
  moreover have "\<forall>e\<in>set ?B. stage e = SLoading"
    using stage_file_blocks [of _ "units_of env (snd r)" ?data_files log] by auto
  ultimately show ?thesis by blast
qed

subsection \<open>Orchestrator: order of the events\<close>

text \<open>
  C9. In every run that is consumed to its end and completes, exactly one event has
  the stage \<open>complete\<close> and it is the last event; and every \<open>downloading\<close> event
  for a file comes before every \<open>loading\<close> event (\<open>processing\<close>, \<open>loaded\<close>,
  per-file \<open>complete\<close>) for that same file.
\<close>

theorem completed_run_order:
  assumes "outcome (imd_data_loader env page_url st) = Completed"
  shows "(\<exists>pre total database.
            events (imd_data_loader env page_url st) = pre @ [Complete total database]
            \<and> (\<forall>e\<in>set pre. stage e \<noteq> SComplete))
         \<and> (\<forall>i j f.
               i < length (events (imd_data_loader env page_url st))
               \<and> j < length (events (imd_data_loader env page_url st))
               \<and> stage (events (imd_data_loader env page_url st) ! i) = SDownloading
               \<and> file_of (events (imd_data_loader env page_url st) ! i) = Some f
               \<and> stage (events (imd_data_loader env page_url st) ! j) = SLoading
               \<and> file_of (events (imd_data_loader env page_url st) ! j) = Some f
               \<longrightarrow> i < j)"
proof -
  let ?evs = "events (imd_data_loader env page_url st)"
  obtain A B total where
    evs: "?evs = A @ B @ [Complete total (db_absolute env)]"
    and A: "\<forall>e\<in>set A. stage e = SExtracting \<or> stage e = SDownloading"
    and B: "\<forall>e\<in>set B. stage e = SLoading"
    using completed_events_parts [of env "fetched env page_url st"
        "loader_calls (imd_data_loader env page_url st)"] completed_run(1) [OF assms]
    by auto
  have last: "?evs = (A @ B) @ [Complete total (db_absolute env)]
              \<and> (\<forall>e\<in>set (A @ B). stage e \<noteq> SComplete)"
    using evs A B by auto
  have order: "i < j"
    if "i < length ?evs" "j < length ?evs"
      "stage (?evs ! i) = SDownloading" "stage (?evs ! j) = SLoading" for i j
  proof (rule nth_order [of A "B @ [Complete total (db_absolute env)]"])
    show "\<forall>e\<in>set A. stage e \<noteq> SLoading" using A by auto
    show "\<forall>e\<in>set (B @ [Complete total (db_absolute env)]). stage e \<noteq> SDownloading"
      using B by auto
    show "i < length (A @ B @ [Complete total (db_absolute env)])" using that(1) evs by simp
    show "j < length (A @ B @ [Complete total (db_absolute env)])" using that(2) evs by simp
    show "stage ((A @ B @ [Complete total (db_absolute env)]) ! i) = SDownloading"
      using that(3) evs by simp
    show "stage ((A @ B @ [Complete total (db_absolute env)]) ! j) = SLoading"
      using that(4) evs by simp
  qed
  from last order show ?thesis by blast
qed

theorem completed_run_order_witness:
  "outcome (imd_data_loader example_env ''page'' empty_state) = Completed
   \<and> (\<exists>pre total database.
         events (imd_data_loader example_env ''page'' empty_state) = pre @ [Complete total database]
         \<and> (\<forall>e\<in>set pre. stage e \<noteq> SComplete))
   \<and> events (imd_data_loader example_env ''page'' empty_state) ! 2
       = Downloading Downloaded ''File_1.xlsx''
   \<and> events (imd_data_loader example_env ''page'' empty_state) ! 6
       = Loaded ''File_1.xlsx'' ''file_1.data1'' 2
   \<and> (2::nat) < 6"
proof -
  let ?evs = "events (imd_data_loader example_env ''page'' empty_state)"
  note c = example_run_completed
  note t = completed_run_order [OF c]
  have e2: "?evs ! 2 = Downloading Downloaded ''File_1.xlsx''"
    by (simp add: example_run_events)
  have e6: "?evs ! 6 = Loaded ''File_1.xlsx'' ''file_1.data1'' 2"
    by (simp add: example_run_events)
  have len: "2 < length ?evs" "6 < length ?evs"
    by (simp_all add: example_run_events)
  from conjunct2 [OF t] have
    "2 < length ?evs \<and> 6 < length ?evs
     \<and> stage (?evs ! 2) = SDownloading \<and> file_of (?evs ! 2) = Some ''File_1.xlsx''
     \<and> stage (?evs ! 6) = SLoading \<and> file_of (?evs ! 6) = Some ''File_1.xlsx''
     \<longrightarrow> (2::nat) < 6"
    by blast
  then have o: "(2::nat) < 6"
    using len by (simp add: e2 e6)
  show ?thesis
    by (intro conjI c conjunct1 [OF t] e2 e6 o)
qed

subsection \<open>Orchestrator: the counts\<close>

lemma passes_downloading:
  "passes (map (\<lambda>(status, file_path). Downloading status file_path) yielded @ rest) None
     = passes rest None"
  by (induction yielded) auto

lemma passes_loaded:
  "passes ([loaded_event f u. (g, u, success) \<leftarrow> mine, success] @ FileComplete f n # rest)
      (Some (f, k))
     = (n = k + length [loaded_event f u. (g, u, success) \<leftarrow> mine, success]
        \<and> passes rest None)"
proof (induction mine arbitrary: k)
  case Nil
  show ?case by auto
next
  case (Cons c mine)
  obtain g u success where c: "c = (g, u, success)" by (cases c)
  obtain schema_name table_name df where u: "u = (schema_name, table_name, df)" by (cases u)
  show ?case
  proof (cases success)
    case True
    with c u Cons [of "Suc k"] show ?thesis by auto
  next
    case False
    with c Cons [of k] show ?thesis by simp
  qed
qed

lemma passes_file_blocks:
  "passes (file_blocks units fs log @ rest) None = passes rest None"
proof (induction fs arbitrary: log)
  case Nil
  show ?case by simp
next
  case (Cons f fs)
  show ?case
    unfolding file_blocks.simps Let_def
    by (simp add: passes_loaded Cons)
qed

lemma passes_completed_events: "passes (completed_events env r log) None"
  unfolding completed_events_def Let_def
  by (simp add: passes_downloading passes_file_blocks)

lemma filter_loaded_downloading:
  "filter is_loaded (map (\<lambda>(status, file_path). Downloading status file_path) yielded) = []"
  by (induction yielded) auto

lemma last_completed_events:
  "last (completed_events env r log)
     = Complete (length (filter is_loaded (completed_events env r log))) (db_absolute env)"
  by (simp add: completed_events_def Let_def filter_loaded_downloading)

text \<open>
  C10, as stated, fails on ``the number of \<open>loaded\<close> events emitted for that file''. A
  page that lists \<open>scores.csv\<close> twice makes two passes over the file: two \<open>loaded\<close>
  events carry the file, and each of the two per-file \<open>complete\<close> events says
  \<open>tables_loaded = 1\<close>. Nothing removes a repeated path from \<^verbatim>\<open>data_files\<close>, and the
  counter is set to zero at the start of every pass.
\<close>

theorem file_listed_twice:
  "events (imd_data_loader twice_env ''page'' empty_state) =
     [Extracting ''Fetching download links'', FoundFiles ''Found 2 files'' 2,
      Downloading Downloaded ''scores.csv'', Downloading Exists ''scores.csv'',
      LoadingFiles ''Loading 2 files into database'' 2,
      Processing ''scores.csv'', Loaded ''scores.csv'' ''scores.scores'' 2,
      FileComplete ''scores.csv'' 1,
      Processing ''scores.csv'', Loaded ''scores.csv'' ''scores.scores'' 2,
      FileComplete ''scores.csv'' 1,
      Complete 2 ''/srv/IMD2025.duckdb'']
   \<and> length (filter (\<lambda>e. is_loaded e \<and> file_of e = Some ''scores.csv'')
               (events (imd_data_loader twice_env ''page'' empty_state))) = 2"
proof -
  have e: "events (imd_data_loader twice_env ''page'' empty_state) =
     [Extracting ''Fetching download links'', FoundFiles ''Found 2 files'' 2,
      Downloading Downloaded ''scores.csv'', Downloading Exists ''scores.csv'',
      LoadingFiles ''Loading 2 files into database'' 2,
      Processing ''scores.csv'', Loaded ''scores.csv'' ''scores.scores'' 2,
      FileComplete ''scores.csv'' 1,
      Processing ''scores.csv'', Loaded ''scores.csv'' ''scores.scores'' 2,
      FileComplete ''scores.csv'' 1,
      Complete 2 ''/srv/IMD2025.duckdb'']"
    by code_simp
  show ?thesis
    unfolding e by simp
qed

lemma not_completed_run:
  assumes "outcome (imd_data_loader env page_url st) \<noteq> Completed"
  shows "loader_calls (imd_data_loader env page_url st) = []
         \<and> filter is_loaded (events (imd_data_loader env page_url st)) = []
         \<and> passes (events (imd_data_loader env page_url st)) None"
proof -
  obtain r st0 where g: "get_download_links env page_url st = (r, st0)"
    by (cases "get_download_links env page_url st")
  show ?thesis
  proof (cases r)
    case (Inl e)
    with g show ?thesis
      by (cases e) (simp_all add: imd_data_loader_def)
  next
    case (Inr files)
    obtain yielded st1 raised where d: "download_file_gen env files st0 = (yielded, st1, raised)"
      by (cases "download_file_gen env files st0")
    show ?thesis
    proof (cases raised)
      case None
      with g Inr d have "outcome (imd_data_loader env page_url st) = Completed"
        by (simp add: imd_data_loader_def Let_def split_beta)
      with assms show ?thesis by simp
    next
      case (Some err)
      have p: "passes (map (\<lambda>(status, file_path). Downloading status file_path) yielded @ []) None"
        unfolding passes_downloading by simp
      from g Inr d Some show ?thesis
        using p by (simp add: imd_data_loader_def downloading_loop_eq filter_loaded_downloading)
    qed
  qed
qed

text \<open>
  C10, amended. In every run, the loading stage is a sequence of passes, one for each
  entry of \<^verbatim>\<open>data_files\<close> (a file listed twice has two): a pass opens with the
  \<open>processing\<close> event of its file and closes with the per-file \<open>complete\<close> event of
  that file, whose \<open>tables_loaded\<close> is the number of \<open>loaded\<close> events of the pass;
  every \<open>loaded\<close> event lies in a pass of its file (this is \<open>passes\<close>). The \<open>loaded\<close>
  events of the run are, in order, those of the calls of the Database Loader that
  returned \<open>True\<close>: a call that returns \<open>False\<close> leaves no event. In a run that
  completes, the final event carries as \<open>total_tables\<close> the number of \<open>loaded\<close>
  events of the whole run, the Database Loader is called once on every unit of every
  pass, in order, and the events are those of the closed form \<open>completed_events\<close>, in
  which a call leaves a \<open>loaded\<close> event or nothing. (A run that does not complete has
  no final event, and no event of the loading stage.)
\<close>

theorem completed_run_tallies:
  "passes (events (imd_data_loader env page_url st)) None
   \<and> filter is_loaded (events (imd_data_loader env page_url st))
     = loaded_events (loader_calls (imd_data_loader env page_url st))
   \<and> (outcome (imd_data_loader env page_url st) = Completed \<longrightarrow>
        last (events (imd_data_loader env page_url st))
          = Complete (length (filter is_loaded (events (imd_data_loader env page_url st))))
              (db_absolute env)
        \<and> map call_unit (loader_calls (imd_data_loader env page_url st))
          = units_in_order (units_of env (snd (fetched env page_url st)))
              (data_files_of (fst (fetched env page_url st)))
        \<and> events (imd_data_loader env page_url st)
          = completed_events env (fetched env page_url st)
              (loader_calls (imd_data_loader env page_url st)))"
proof (cases "outcome (imd_data_loader env page_url st) = Completed")
  case True
  note e = completed_run(1) [OF True]
  have l: "last (events (imd_data_loader env page_url st))
             = Complete (length (filter is_loaded (events (imd_data_loader env page_url st))))
                 (db_absolute env)"
    unfolding e by (rule last_completed_events)
  have p: "passes (events (imd_data_loader env page_url st)) None"
    unfolding e by (rule passes_completed_events)
  show ?thesis
    by (intro conjI impI l p completed_run(3) [OF True] completed_run(2) [OF True] e)
next
  case False
  from not_completed_run [OF False] False show ?thesis
    by (simp add: loaded_events_Nil)
qed

lemma picky_run_events:
  "events (imd_data_loader picky_env ''page'' empty_state) =
     [Extracting ''Fetching download links'', FoundFiles ''Found 2 files'' 2,
      Downloading Downloaded ''File_1.xlsx'', Downloading Downloaded ''scores.csv'',
      LoadingFiles ''Loading 2 files into database'' 2,
      Processing ''File_1.xlsx'', FileComplete ''File_1.xlsx'' 0,
      Processing ''scores.csv'', Loaded ''scores.csv'' ''scores.scores'' 2,
      FileComplete ''scores.csv'' 1,
      Complete 1 ''/srv/IMD2025.duckdb'']"
  by code_simp

lemma picky_run_calls:
  "loader_calls (imd_data_loader picky_env ''page'' empty_state) =
     [(''File_1.xlsx'', (''file_1'', ''data1'', example_df), False),
      (''scores.csv'', (''scores'', ''scores'', example_df), True)]"
  by code_simp

lemma picky_run_completed:
  "outcome (imd_data_loader picky_env ''page'' empty_state) = Completed"
  by code_simp

theorem completed_run_tallies_witness:
  "passes (events (imd_data_loader picky_env ''page'' empty_state)) None
   \<and> filter is_loaded (events (imd_data_loader picky_env ''page'' empty_state))
       = loaded_events (loader_calls (imd_data_loader picky_env ''page'' empty_state))
   \<and> loader_calls (imd_data_loader picky_env ''page'' empty_state)
       = [(''File_1.xlsx'', (''file_1'', ''data1'', example_df), False),
          (''scores.csv'', (''scores'', ''scores'', example_df), True)]
   \<and> filter is_loaded (events (imd_data_loader picky_env ''page'' empty_state))
       = [Loaded ''scores.csv'' ''scores.scores'' 2]
   \<and> outcome (imd_data_loader picky_env ''page'' empty_state) = Completed
   \<and> last (events (imd_data_loader picky_env ''page'' empty_state))
       = Complete (length (filter is_loaded (events (imd_data_loader picky_env ''page'' empty_state))))
           (db_absolute picky_env)
   \<and> last (events (imd_data_loader picky_env ''page'' empty_state))
       = Complete 1 ''/srv/IMD2025.duckdb''
   \<and> map call_unit (loader_calls (imd_data_loader picky_env ''page'' empty_state))
       = units_in_order (units_of picky_env (snd (fetched picky_env ''page'' empty_state)))
           (data_files_of (fst (fetched picky_env ''page'' empty_state)))
   \<and> events (imd_data_loader picky_env ''page'' empty_state)
       = completed_events picky_env (fetched picky_env ''page'' empty_state)
           (loader_calls (imd_data_loader picky_env ''page'' empty_state))
   \<and> events (imd_data_loader picky_env ''page'' empty_state)
       = [Extracting ''Fetching download links'', FoundFiles ''Found 2 files'' 2,
          Downloading Downloaded ''File_1.xlsx'', Downloading Downloaded ''scores.csv'',
          LoadingFiles ''Loading 2 files into database'' 2,
          Processing ''File_1.xlsx'', FileComplete ''File_1.xlsx'' 0,
          Processing ''scores.csv'', Loaded ''scores.csv'' ''scores.scores'' 2,
          FileComplete ''scores.csv'' 1,
          Complete 1 ''/srv/IMD2025.duckdb'']"
proof -
  note c = picky_run_completed
  note t = completed_run_tallies [of picky_env "''page''" empty_state]
  note t3 = mp [OF conjunct2 [OF conjunct2 [OF t]] c]
  have l: "last (events (imd_data_loader picky_env ''page'' empty_state))
             = Complete 1 ''/srv/IMD2025.duckdb''"
    by (simp add: picky_run_events)
  have f: "filter is_loaded (events (imd_data_loader picky_env ''page'' empty_state))
             = [Loaded ''scores.csv'' ''scores.scores'' 2]"
    by (simp add: picky_run_events)
  show ?thesis
    by (intro conjI c l f picky_run_calls picky_run_events conjunct1 [OF t]
          conjunct1 [OF conjunct2 [OF t]] conjunct1 [OF t3] conjunct1 [OF conjunct2 [OF t3]]
          conjunct2 [OF conjunct2 [OF t3]])
qed

subsection \<open>Orchestrator: which files are loaded\<close>

lemma filter_processing_loaded:
  "filter is_processing [loaded_event f u. (g, u, success) \<leftarrow> mine, success] = []"
proof (induction mine)
  case Nil
  show ?case by simp
next
  case (Cons c mine)
  obtain g u success where c: "c = (g, u, success)" by (cases c)
  obtain schema_name table_name df where u: "u = (schema_name, table_name, df)" by (cases u)
  from Cons c u show ?case by simp
qed

lemma filter_processing_blocks:
  "filter is_processing (file_blocks units fs log) = map Processing fs"
proof (induction fs arbitrary: log)
  case Nil
  show ?case by simp
next
  case (Cons f fs)
  show ?case
    unfolding file_blocks.simps Let_def
    by (simp add: filter_processing_loaded Cons)
qed

lemma filter_processing_downloading:
  "filter is_processing (map (\<lambda>(status, file_path). Downloading status file_path) yielded) = []"
  by (induction yielded) auto

lemma processing_in_completed_events:
  "filter is_processing (completed_events env r log) = map Processing (data_files_of (fst r))"
  by (simp add: completed_events_def Let_def filter_processing_downloading
        filter_processing_blocks)

lemma units_of_absent: "dir s f = None \<Longrightarrow> units_of env s f = []"
  by (simp add: units_of_def process_excel_file_def process_csv_file_def ExcelFile_def
        read_csv_def)

lemma loaded_events_call:
  "Loaded f t n \<in> set (loaded_events log) \<Longrightarrow> \<exists>u success. (f, u, success) \<in> set log"
proof (induction log)
  case Nil
  then show ?case by (simp add: loaded_events_Nil)
next
  case (Cons c log)
  obtain g u success where c: "c = (g, u, success)" by (cases c)
  obtain schema_name table_name df where u: "u = (schema_name, table_name, df)" by (cases u)
  show ?case
  proof (cases "Loaded f t n \<in> set (loaded_events log)")
    case True
    with Cons.IH show ?thesis by auto
  next
    case False
    with Cons.prems c u have "g = f"
      by (auto simp: loaded_events_Cons split: if_splits)
    with c have "(f, u, success) \<in> set (c # log)" by simp
    then show ?thesis by blast
  qed
qed

lemma units_in_order_unit:
  "(f, u) \<in> set (units_in_order units fs) \<Longrightarrow> u \<in> set (units f)"
  by (auto simp: units_in_order_def)

text \<open>
  C1, as stated, fails. When every download fails, both files are yielded with the
  status \<open>failed\<close>, and the loading stage still emits a \<open>processing\<close> event and a
  per-file \<open>complete\<close> event for each of them: the Table Extractor is run on them
  and finds nothing to read.
\<close>

theorem failed_download_is_processed:
  "events (imd_data_loader offline_env ''page'' empty_state) =
     [Extracting ''Fetching download links'', FoundFiles ''Found 2 files'' 2,
      Downloading Failed ''File_1.xlsx'', Downloading Failed ''scores.csv'',
      LoadingFiles ''Loading 2 files into database'' 2,
      Processing ''File_1.xlsx'', FileComplete ''File_1.xlsx'' 0,
      Processing ''scores.csv'', FileComplete ''scores.csv'' 0,
      Complete 0 ''/srv/IMD2025.duckdb'']"
  by code_simp

text \<open>
  C1, amended. In every run that completes, the loading stage takes every path the File
  Fetcher yielded whose suffix is \<open>.xlsx\<close> or \<open>.csv\<close>, in the order yielded and
  whatever its status: the \<open>processing\<close> events of the run are exactly these paths,
  a file whose download yielded \<open>failed\<close> among them. For each of them, in that order,
  the matching Table Extractor is run on the file as the File Fetcher left it, the
  Database Loader is called on every unit it yields, in order, and the events are the
  \<open>processing\<close> event, a \<open>loaded\<close> event for each call that returned \<open>True\<close>, and
  the per-file \<open>complete\<close> event: the events of the run are those of
  \<open>completed_events\<close>. Tables are loaded only from files that are present in the data
  directory: every \<open>loaded\<close> event names a file of the directory, and a file that is
  not there yields no Tabular Unit. A download that failed after part of the file was
  written leaves a file there, and what can be read from it is loaded.
\<close>

theorem completed_run_processes_data_files:
  assumes "outcome (imd_data_loader env page_url st) = Completed"
  shows "events (imd_data_loader env page_url st)
           = completed_events env (fetched env page_url st)
               (loader_calls (imd_data_loader env page_url st))
         \<and> map call_unit (loader_calls (imd_data_loader env page_url st))
           = units_in_order (units_of env (snd (fetched env page_url st)))
               (data_files_of (fst (fetched env page_url st)))
         \<and> filter is_processing (events (imd_data_loader env page_url st))
           = map Processing (data_files_of (fst (fetched env page_url st)))
         \<and> ((status, file_path) \<in> set (fst (fetched env page_url st))
              \<and> (path_suffix file_path = ''.xlsx'' \<or> path_suffix file_path = ''.csv'')
              \<longrightarrow> Processing file_path \<in> set (events (imd_data_loader env page_url st)))
         \<and> (Loaded f t n \<in> set (events (imd_data_loader env page_url st))
              \<longrightarrow> dir (snd (fetched env page_url st)) f \<noteq> None)
         \<and> (dir s f = None \<longrightarrow> units_of env s f = [])"
proof -
  let ?run = "imd_data_loader env page_url st"
  let ?evs = "events ?run"
  let ?r = "fetched env page_url st"
  note e = completed_run(1) [OF assms]
  note c = completed_run(2) [OF assms]
  have p: "filter is_processing ?evs = map Processing (data_files_of (fst ?r))"
    unfolding e by (rule processing_in_completed_events)
  have q: "Processing file_path \<in> set ?evs"
    if "(status, file_path) \<in> set (fst ?r)"
      "path_suffix file_path = ''.xlsx'' \<or> path_suffix file_path = ''.csv''"
  proof -
    from that have "file_path \<in> set (data_files_of (fst ?r))"
      by (auto simp: data_files_of_def)
    then have "Processing file_path \<in> set (filter is_processing ?evs)"
      unfolding p by simp
    then show ?thesis by simp
  qed
  have l: "dir (snd ?r) f \<noteq> None" if "Loaded f t n \<in> set ?evs"
  proof
    assume absent: "dir (snd ?r) f = None"
    from that have "Loaded f t n \<in> set (filter is_loaded ?evs)" by simp
    then have "Loaded f t n \<in> set (loaded_events (loader_calls ?run))"
      unfolding completed_run(3) [OF assms] .
    then obtain u success where "(f, u, success) \<in> set (loader_calls ?run)"
      using loaded_events_call by blast
    then have "call_unit (f, u, success) \<in> call_unit ` set (loader_calls ?run)"
      by (rule imageI)
    then have "call_unit (f, u, success) \<in> set (map call_unit (loader_calls ?run))"
      by (simp only: set_map)
    then have "(f, u) \<in> set (units_in_order (units_of env (snd ?r)) (data_files_of (fst ?r)))"
      unfolding c by simp
    then have "u \<in> set (units_of env (snd ?r) f)"
      by (rule units_in_order_unit)
    with units_of_absent [OF absent, of env] show False by simp
  qed
  from e c p q l units_of_absent [of s f env] show ?thesis by blast
qed

lemma flaky_run_events:
  "events (imd_data_loader flaky_env ''page'' empty_state) =
     [Extracting ''Fetching download links'', FoundFiles ''Found 2 files'' 2,
      Downloading Downloaded ''File_1.xlsx'', Downloading Failed ''scores.csv'',
      LoadingFiles ''Loading 2 files into database'' 2,
      Processing ''File_1.xlsx'', Loaded ''File_1.xlsx'' ''file_1.data1'' 2,
      FileComplete ''File_1.xlsx'' 1,
      Processing ''scores.csv'', Loaded ''scores.csv'' ''scores.scores'' 1,
      FileComplete ''scores.csv'' 1,
      Complete 2 ''/srv/IMD2025.duckdb'']"
  by code_simp

lemma flaky_run_calls:
  "map call_unit (loader_calls (imd_data_loader flaky_env ''page'' empty_state)) =
     [(''File_1.xlsx'', (''file_1'', ''data1'', example_df)),
      (''scores.csv'', (''scores'', ''scores'', partial_df))]"
  by code_simp

theorem completed_run_processes_data_files_witness:
  "outcome (imd_data_loader flaky_env ''page'' empty_state) = Completed
   \<and> events (imd_data_loader flaky_env ''page'' empty_state)
       = completed_events flaky_env (fetched flaky_env ''page'' empty_state)
           (loader_calls (imd_data_loader flaky_env ''page'' empty_state))
   \<and> events (imd_data_loader flaky_env ''page'' empty_state)
       = [Extracting ''Fetching download links'', FoundFiles ''Found 2 files'' 2,
          Downloading Downloaded ''File_1.xlsx'', Downloading Failed ''scores.csv'',
          LoadingFiles ''Loading 2 files into database'' 2,
          Processing ''File_1.xlsx'', Loaded ''File_1.xlsx'' ''file_1.data1'' 2,
          FileComplete ''File_1.xlsx'' 1,
          Processing ''scores.csv'', Loaded ''scores.csv'' ''scores.scores'' 1,
          FileComplete ''scores.csv'' 1,
          Complete 2 ''/srv/IMD2025.duckdb'']
   \<and> map call_unit (loader_calls (imd_data_loader flaky_env ''page'' empty_state))
       = units_in_order (units_of flaky_env (snd (fetched flaky_env ''page'' empty_state)))
           (data_files_of (fst (fetched flaky_env ''page'' empty_state)))
   \<and> map call_unit (loader_calls (imd_data_loader flaky_env ''page'' empty_state))
       = [(''File_1.xlsx'', (''file_1'', ''data1'', example_df)),
          (''scores.csv'', (''scores'', ''scores'', partial_df))]
   \<and> filter is_processing (events (imd_data_loader flaky_env ''page'' empty_state))
       = map Processing (data_files_of (fst (fetched flaky_env ''page'' empty_state)))
   \<and> (Failed, ''scores.csv'') \<in> set (fst (fetched flaky_env ''page'' empty_state))
   \<and> path_suffix ''scores.csv'' = ''.csv''
   \<and> Processing ''scores.csv'' \<in> set (events (imd_data_loader flaky_env ''page'' empty_state))
   \<and> Loaded ''scores.csv'' ''scores.scores'' 1
       \<in> set (events (imd_data_loader flaky_env ''page'' empty_state))
   \<and> dir (snd (fetched flaky_env ''page'' empty_state)) ''scores.csv'' \<noteq> None
   \<and> dir (snd (fetched offline_env ''page'' empty_state)) ''scores.csv'' = None
   \<and> units_of flaky_env (snd (fetched offline_env ''page'' empty_state)) ''scores.csv'' = []"
proof -
  let ?r = "fetched flaky_env ''page'' empty_state"
  let ?o = "fetched offline_env ''page'' empty_state"
  have c: "outcome (imd_data_loader flaky_env ''page'' empty_state) = Completed"
    by code_simp
  note t = completed_run_processes_data_files
    [OF c, of Failed "''scores.csv''" "''scores.csv''" "''scores.scores''" 1 "snd ?o"]
  have y: "fst ?r = [(Downloaded, ''File_1.xlsx''), (Failed, ''scores.csv'')]"
    by code_simp
  have m: "(Failed, ''scores.csv'') \<in> set (fst ?r)"
    by (simp add: y)
  have s: "path_suffix ''scores.csv'' = ''.csv''"
    by code_simp
  have a: "dir (snd ?o) ''scores.csv'' = None"
    by code_simp
  have i: "Loaded ''scores.csv'' ''scores.scores'' 1
             \<in> set (events (imd_data_loader flaky_env ''page'' empty_state))"
    by (simp add: flaky_run_events)
  note t3 = conjunct2 [OF conjunct2 [OF conjunct2 [OF t]]]
  from conjunct1 [OF t3] m s
  have p: "Processing ''scores.csv'' \<in> set (events (imd_data_loader flaky_env ''page'' empty_state))"
    by simp
  from conjunct1 [OF conjunct2 [OF t3]] i
  have d: "dir (snd ?r) ''scores.csv'' \<noteq> None"
    by (rule mp)
  from conjunct2 [OF conjunct2 [OF t3]] a
  have u: "units_of flaky_env (snd ?o) ''scores.csv'' = []"
    by (rule mp)
  show ?thesis
    by (intro conjI c conjunct1 [OF t] flaky_run_events conjunct1 [OF conjunct2 [OF t]]
          flaky_run_calls conjunct1 [OF conjunct2 [OF conjunct2 [OF t]]] m s p i d a u)
qed


end
